theory Spec2Isabelle
  imports Complex_Main "HOL-Library.Sublist" "HOL-Library.Multiset"
begin

section \<open>Quality scoring (CompetitionDashboard.jsx, calculateQualityScore)\<close>

text \<open>
  The statistics object arrives as parsed JSON. A count that is missing is
  \<open>None\<close> (JavaScript \<open>undefined\<close>); the counts themselves are integers, taken
  as unbounded. The code computes in doubles, which is the same arithmetic as long as
  every intermediate result stays below \<open>2^53\<close> in magnitude; counts up to \<open>2^49\<close>
  in magnitude keep it so. Beyond that the results can differ, except that for
  non-negative counts the clamped score is 0 either way.
  JavaScript's \<open>a || d\<close> yields \<open>d\<close> when \<open>a\<close> is \<open>undefined\<close> or \<open>0\<close>,
  and \<open>stats.levels?.error\<close> is \<open>undefined\<close> when \<open>stats.levels\<close> is.
\<close>

record levels =
  lv_error :: "int option"
  lv_warn :: "int option"

record stats =
  total_entries :: "int option"
  stats_levels :: "levels option"

record breakdown =
  base_score :: int
  error_penalty :: int
  warning_penalty :: int
  error_count :: int
  warning_count :: int
  bd_total_entries :: int

record quality_score =
  score :: int
  grade :: string
  qs_breakdown :: breakdown
  recommendations :: "string list"

definition or_default :: "int option \<Rightarrow> int \<Rightarrow> int" where
  "or_default a d = (case a of None \<Rightarrow> d | Some n \<Rightarrow> if n = 0 then d else n)"

text \<open>\<open>stats.levels?.error\<close> and \<open>stats.levels?.warn\<close>.\<close>

definition levels_error :: "stats \<Rightarrow> int option" where
  "levels_error st = (case stats_levels st of None \<Rightarrow> None | Some l \<Rightarrow> lv_error l)"

definition levels_warn :: "stats \<Rightarrow> int option" where
  "levels_warn st = (case stats_levels st of None \<Rightarrow> None | Some l \<Rightarrow> lv_warn l)"

text \<open>Decimal rendering of an integer, as a template literal \<open>${n}\<close> prints it.\<close>

function string_of_nat :: "nat \<Rightarrow> string" where
  "string_of_nat n =
     (if n < 10 then [''0123456789'' ! n]
      else string_of_nat (n div 10) @ [''0123456789'' ! (n mod 10)])"
  by pat_completeness auto
termination
  by (relation "measure id") auto

declare string_of_nat.simps [simp del]

definition string_of_int :: "int \<Rightarrow> string" where
  "string_of_int i = (if i < 0 then CHR ''-'' # string_of_nat (nat (- i)) else string_of_nat (nat i))"

definition grade_of :: "int \<Rightarrow> string" where
  "grade_of s =
     (if s \<ge> 90 then ''A''
      else if s \<ge> 80 then ''B''
      else if s \<ge> 70 then ''C''
      else if s \<ge> 60 then ''D''
      else ''F'')"

definition recommendations_of :: "int \<Rightarrow> int \<Rightarrow> int \<Rightarrow> string list" where
  "recommendations_of totalEntries errorCount warningCount =
     (let r1 = (if errorCount > 0
                then [''Fix '' @ string_of_int errorCount @ '' configuration errors'']
                else []);
          r2 = r1 @ (if warningCount > 0
                then [''Address '' @ string_of_int warningCount @ '' warnings'']
                else []);
          r3 = r2 @ (if length r2 = 0 \<and> totalEntries > 0
                then [''Configuration quality is excellent!'']
                else []);
          r4 = r3 @ (if totalEntries = 0
                then [''Upload Terraform logs to get quality assessment'']
                else [])
      in r4)"

text \<open>
  \<open>Math.round\<close> is the identity on the integer \<open>score\<close> has at that point, so the
  returned \<open>score\<close> field is the clamped value itself.
\<close>

definition calculateQualityScore :: "stats \<Rightarrow> quality_score" where
  "calculateQualityScore st =
     (let totalEntries = or_default (total_entries st) 1;
          errorCount = or_default (levels_error st) 0;
          warningCount = or_default (levels_warn st) 0;
          score0 = 100 - (errorCount * 10) - (warningCount * 2);
          score1 = max 0 (min 100 score0)
      in \<lparr> score = score1,
           grade = grade_of score1,
           qs_breakdown = \<lparr> base_score = 100,
                            error_penalty = errorCount * 10,
                            warning_penalty = warningCount * 2,
                            error_count = errorCount,
                            warning_count = warningCount,
                            bd_total_entries = totalEntries \<rparr>,
           recommendations = recommendations_of totalEntries errorCount warningCount \<rparr>)"

text \<open>
  The specification's \<open>score(totalEntries, errorCount, warningCount)\<close>: the three counts
  handed over in the statistics object the function reads.
\<close>

definition score_of :: "int \<Rightarrow> int \<Rightarrow> int \<Rightarrow> quality_score" where
  "score_of t e w =
     calculateQualityScore
       \<lparr> total_entries = Some t,
         stats_levels = Some \<lparr> lv_error = Some e, lv_warn = Some w \<rparr> \<rparr>"

definition clamp :: "int \<Rightarrow> int \<Rightarrow> int \<Rightarrow> int" where
  "clamp x lo hi = max lo (min hi x)"


section \<open>Log entries as parsed JSON\<close>

text \<open>
  The entries come from \<open>response.json()\<close>. A field value is a JSON value; \<open>JUndefined\<close>
  is what reading a missing property gives, and \<open>JProto k\<close> is what reading
  \<open>k\<close> gives when \<open>k\<close> is not an own property but a member every plain object
  inherits from \<open>Object.prototype\<close> (a built-in function, or the prototype object itself
  for \<open>__proto__\<close>). The code never computes with the numbers of an entry: it tests
  them for truthiness and prints them. So a number is held as the text \<open>String\<close> prints
  for it, \<open>0\<close> for zero; this covers every JSON number, whatever its size or fraction.
  Strings are character lists.
\<close>

datatype jsval =
    JUndefined
  | JNull
  | JBool bool
  | JNum string
  | JStr string
  | JArr "jsval list"
  | JObj "(string \<times> jsval) list"
  | JProto string

type_synonym jsobj = "(string \<times> jsval) list"

datatype error = TypeError

definition objectPrototypeKeys :: "string list" where
  "objectPrototypeKeys =
     [''constructor'', ''__defineGetter__'', ''__defineSetter__'', ''hasOwnProperty'',
      ''__lookupGetter__'', ''__lookupSetter__'', ''isPrototypeOf'', ''propertyIsEnumerable'',
      ''toString'', ''valueOf'', ''__proto__'', ''toLocaleString'']"

text \<open>\<open>obj[k]\<close> on a plain object: the own property, else the inherited member.\<close>

definition get_prop :: "jsobj \<Rightarrow> string \<Rightarrow> jsval" where
  "get_prop obj k =
     (case map_of obj k of
        Some v \<Rightarrow> v
      | None \<Rightarrow> if k \<in> set objectPrototypeKeys then JProto k else JUndefined)"

text \<open>Truthiness, and \<open>a || b\<close> on values already evaluated.\<close>

fun truthy :: "jsval \<Rightarrow> bool" where
  "truthy JUndefined = False"
| "truthy JNull = False"
| "truthy (JBool b) = b"
| "truthy (JNum t) = (t \<noteq> ''0'')"
| "truthy (JStr s) = (s \<noteq> [])"
| "truthy (JArr xs) = True"
| "truthy (JObj kvs) = True"
| "truthy (JProto k) = True"

definition js_or :: "jsval \<Rightarrow> jsval \<Rightarrow> jsval" where
  "js_or a b = (if truthy a then a else b)"

text \<open>
  \<open>String(v)\<close>, which is also how a value becomes a property key. An array prints its
  elements joined by commas, \<open>null\<close> and \<open>undefined\<close> elements as nothing. An object
  prints as \<open>[object Object]\<close> through the \<open>toString\<close> it inherits; when it has an
  own property \<open>toString\<close> (which, coming from JSON, is not a function) the conversion
  finds nothing to call that yields a primitive and throws a \<open>TypeError\<close>, and so does
  the conversion of an array holding such an object. The text of a built-in function is
  implementation-defined; the model prints it the way V8 does.
\<close>

fun join_comma :: "string list \<Rightarrow> string" where
  "join_comma [] = []"
| "join_comma [x] = x"
| "join_comma (x # y # ys) = x @ '','' @ join_comma (y # ys)"

definition proto_text :: "string \<Rightarrow> string" where
  "proto_text k =
     (if k = ''__proto__'' then ''[object Object]''
      else ''function '' @ (if k = ''constructor'' then ''Object'' else k) @ ''() { [native code] }'')"

fun String_of :: "jsval \<Rightarrow> error + string"
  and element_texts :: "jsval list \<Rightarrow> error + string list" where
  "String_of JUndefined = Inr ''undefined''"
| "String_of JNull = Inr ''null''"
| "String_of (JBool b) = Inr (if b then ''true'' else ''false'')"
| "String_of (JNum t) = Inr t"
| "String_of (JStr s) = Inr s"
| "String_of (JArr xs) =
     (case element_texts xs of Inl err \<Rightarrow> Inl err | Inr ts \<Rightarrow> Inr (join_comma ts))"
| "String_of (JObj kvs) =
     (if ''toString'' \<in> fst ` set kvs then Inl TypeError else Inr ''[object Object]'')"
| "String_of (JProto k) = Inr (proto_text k)"
| "element_texts [] = Inr []"
| "element_texts (v # vs) =
     (case (if v = JUndefined \<or> v = JNull then Inr [] else String_of v) of
        Inl err \<Rightarrow> Inl err
      | Inr t \<Rightarrow> (case element_texts vs of Inl err \<Rightarrow> Inl err | Inr ts \<Rightarrow> Inr (t # ts)))"


definition toLowerChar :: "char \<Rightarrow> char" where
  "toLowerChar c =
     (case map_of (zip ''ABCDEFGHIJKLMNOPQRSTUVWXYZ'' ''abcdefghijklmnopqrstuvwxyz'') c of
        Some l \<Rightarrow> l
      | None \<Rightarrow> c)"

definition toLowerCase :: "string \<Rightarrow> string" where
  "toLowerCase s = map toLowerChar s"

fun str_includes :: "string \<Rightarrow> string \<Rightarrow> bool" where
  "str_includes [] sub = (sub = [])"
| "str_includes (c # cs) sub = (prefix sub (c # cs) \<or> str_includes cs sub)"

text \<open>
  A log entry: its own properties other than \<open>raw_data\<close>, and \<open>raw_data\<close>, which is an
  object of attributes, or \<open>None\<close> when the entry has none (missing or \<open>null\<close>).
\<close>

record entry =
  own_props :: jsobj
  raw_data :: "jsobj option"

definition entry_prop :: "entry \<Rightarrow> string \<Rightarrow> jsval" where
  "entry_prop e k =
     (if k = ''raw_data''
      then (case raw_data e of None \<Rightarrow> JUndefined | Some obj \<Rightarrow> JObj obj)
      else get_prop (own_props e) k)"


text \<open>An entry without attributes.\<close>

definition mk_entry :: "jsobj \<Rightarrow> entry" where
  "mk_entry props = \<lparr> own_props = props, raw_data = None \<rparr>"


section \<open>Timeline layout (GanttChart component, getTimelineScale and getBarStyle)\<close>

text \<open>
  JavaScript numbers as the timeline code meets them: \<open>NaN\<close>, the two infinities and
  the finite values. Finite arithmetic is exact here (IEEE rounding is not modelled), and
  the two zeros are one value; the only zero divisor the component can build is the
  literal \<open>range: 0\<close> of the empty scale, a positive zero.
\<close>

datatype num = NaN | PInf | NInf | Fin real

fun num_sub :: "num \<Rightarrow> num \<Rightarrow> num" where
  "num_sub NaN b = NaN"
| "num_sub a NaN = NaN"
| "num_sub (Fin x) (Fin y) = Fin (x - y)"
| "num_sub (Fin x) PInf = NInf"
| "num_sub (Fin x) NInf = PInf"
| "num_sub PInf PInf = NaN"
| "num_sub PInf b = PInf"
| "num_sub NInf NInf = NaN"
| "num_sub NInf b = NInf"

fun num_neg :: "num \<Rightarrow> num" where
  "num_neg NaN = NaN"
| "num_neg PInf = NInf"
| "num_neg NInf = PInf"
| "num_neg (Fin x) = Fin (- x)"

fun inf_of_sign :: "real \<Rightarrow> num" where
  "inf_of_sign x = (if x = 0 then NaN else if x > 0 then PInf else NInf)"

fun num_mul :: "num \<Rightarrow> num \<Rightarrow> num" where
  "num_mul NaN b = NaN"
| "num_mul a NaN = NaN"
| "num_mul (Fin x) (Fin y) = Fin (x * y)"
| "num_mul (Fin x) PInf = inf_of_sign x"
| "num_mul (Fin x) NInf = num_neg (inf_of_sign x)"
| "num_mul PInf (Fin y) = inf_of_sign y"
| "num_mul NInf (Fin y) = num_neg (inf_of_sign y)"
| "num_mul PInf PInf = PInf"
| "num_mul PInf NInf = NInf"
| "num_mul NInf PInf = NInf"
| "num_mul NInf NInf = PInf"

fun num_div :: "num \<Rightarrow> num \<Rightarrow> num" where
  "num_div NaN b = NaN"
| "num_div a NaN = NaN"
| "num_div (Fin x) (Fin y) = (if y = 0 then inf_of_sign x else Fin (x / y))"
| "num_div (Fin x) PInf = Fin 0"
| "num_div (Fin x) NInf = Fin 0"
| "num_div PInf (Fin y) = (if y < 0 then NInf else PInf)"
| "num_div NInf (Fin y) = (if y < 0 then PInf else NInf)"
| "num_div PInf b = NaN"
| "num_div NInf b = NaN"

text \<open>\<open>Math.min\<close> and \<open>Math.max\<close> of two arguments: \<open>NaN\<close> if either is.\<close>

fun min2 :: "num \<Rightarrow> num \<Rightarrow> num" where
  "min2 NaN b = NaN"
| "min2 a NaN = NaN"
| "min2 NInf b = NInf"
| "min2 a NInf = NInf"
| "min2 PInf b = b"
| "min2 a PInf = a"
| "min2 (Fin x) (Fin y) = Fin (min x y)"

fun max2 :: "num \<Rightarrow> num \<Rightarrow> num" where
  "max2 NaN b = NaN"
| "max2 a NaN = NaN"
| "max2 PInf b = PInf"
| "max2 a PInf = PInf"
| "max2 NInf b = b"
| "max2 a NInf = a"
| "max2 (Fin x) (Fin y) = Fin (max x y)"

text \<open>
  \<open>Math.min(...xs)\<close> and \<open>Math.max(...xs)\<close>: with no argument they are \<open>Infinity\<close>
  and \<open>-Infinity\<close>.
\<close>

definition Math_min :: "num list \<Rightarrow> num" where
  "Math_min xs = foldr min2 xs PInf"

definition Math_max :: "num list \<Rightarrow> num" where
  "Math_max xs = foldr max2 xs NInf"

text \<open>\<open>a || d\<close> on numbers: \<open>NaN\<close> and zero are falsy.\<close>

definition num_or :: "num \<Rightarrow> num \<Rightarrow> num" where
  "num_or a d = (if a = NaN \<or> a = Fin 0 then d else a)"

text \<open>
  A segment of the Gantt data. \<open>seg_start\<close> and \<open>seg_end\<close> hold what
  \<open>new Date(item.start)\<close> and \<open>new Date(item.end)\<close> parse to: the time value in
  milliseconds, or \<open>None\<close> for an invalid date, whose \<open>getTime()\<close> is \<open>NaN\<close>.
  Parsing itself is outside the model.
\<close>

record segment =
  seg_id :: string
  seg_type :: string
  seg_start :: "int option"
  seg_end :: "int option"

definition getTime :: "int option \<Rightarrow> num" where
  "getTime d = (case d of None \<Rightarrow> NaN | Some t \<Rightarrow> Fin (real_of_int t))"

record timeline_scale =
  scale_min :: num
  scale_max :: num
  scale_range :: num

text \<open>
  \<open>filteredData\<close>: all segments for the filter \<open>all\<close>, else those of the chosen type.
\<close>

definition filteredData :: "string \<Rightarrow> segment list \<Rightarrow> segment list" where
  "filteredData flt ganttData =
     (if flt = ''all'' then ganttData else filter (\<lambda>item. seg_type item = flt) ganttData)"

text \<open>
  \<open>getTimelineScale\<close> over the filtered data. For no data the code returns
  \<open>{min: new Date(), max: new Date(), range: 0}\<close>; \<open>now\<close> is the time value of
  those two dates, taken in the same millisecond.
\<close>

definition timestamps :: "segment list \<Rightarrow> num list" where
  "timestamps segs = concat (map (\<lambda>item. [getTime (seg_start item), getTime (seg_end item)]) segs)"

definition getTimelineScale :: "int \<Rightarrow> segment list \<Rightarrow> timeline_scale" where
  "getTimelineScale now segs =
     (if length segs = 0
      then \<lparr> scale_min = Fin (real_of_int now), scale_max = Fin (real_of_int now),
             scale_range = Fin 0 \<rparr>
      else
        (let mn = Math_min (timestamps segs);
             mx = Math_max (timestamps segs);
             rng = num_or (num_sub mx mn) (Fin 1)
         in \<lparr> scale_min = mn, scale_max = mx, scale_range = rng \<rparr>))"

text \<open>
  \<open>colors[operation] || '#333333'\<close> on the four-entry table \<open>colors\<close>: a type that
  names a member of \<open>Object.prototype\<close> finds that member instead of the default.
\<close>

definition getOperationColor :: "string \<Rightarrow> jsval" where
  "getOperationColor operation =
     js_or (get_prop [(''plan'', JStr ''#1890ff''), (''apply'', JStr ''#52c41a''),
                      (''validate'', JStr ''#faad14''), (''unknown'', JStr ''#222222'')] operation)
           (JStr ''#333333'')"

text \<open>
  The bar geometry of \<open>getBarStyle\<close>. The style object renders \<open>left\<close> and \<open>width\<close>
  as \<open>`${left}%`\<close>; the model keeps the numbers. The constant style entries (position,
  height, radius, cursor, transition) are left out.
\<close>

record bar_style =
  bar_left :: num
  bar_width :: num
  backgroundColor :: jsval

definition getBarStyle :: "timeline_scale \<Rightarrow> segment \<Rightarrow> bar_style" where
  "getBarStyle timeline item =
     (let startTime = getTime (seg_start item);
          endTime = getTime (seg_end item);
          left = num_mul (num_div (num_sub startTime (scale_min timeline)) (scale_range timeline)) (Fin 100);
          width = max2 (num_mul (num_div (num_sub endTime startTime) (scale_range timeline)) (Fin 100))
                       (Fin (1 / 2))
      in \<lparr> bar_left = left, bar_width = width,
           backgroundColor = getOperationColor (seg_type item) \<rparr>)"

text \<open>
  The layout the component renders: the scale of the filtered data, and one bar per
  filtered segment, in the order of the data (\<open>filteredData.map\<close>).
\<close>

definition layout :: "int \<Rightarrow> segment list \<Rightarrow> timeline_scale \<times> bar_style list" where
  "layout now segs =
     (let timeline = getTimelineScale now segs
      in (timeline, map (getBarStyle timeline) segs))"

definition mk_segment :: "string \<Rightarrow> string \<Rightarrow> int option \<Rightarrow> int option \<Rightarrow> segment" where
  "mk_segment i ty a b = \<lparr> seg_id = i, seg_type = ty, seg_start = a, seg_end = b \<rparr>"

text \<open>The instants of a collection that parsed, and whether all of them did.\<close>

definition instants :: "segment list \<Rightarrow> int list" where
  "instants segs =
     concat (map (\<lambda>item. (case seg_start item of None \<Rightarrow> [] | Some a \<Rightarrow> [a])
                        @ (case seg_end item of None \<Rightarrow> [] | Some b \<Rightarrow> [b])) segs)"

definition parses :: "segment \<Rightarrow> bool" where
  "parses item = (seg_start item \<noteq> None \<and> seg_end item \<noteq> None)"


section \<open>Correlation grouping (groupEntries)\<close>

text \<open>
  The accumulator of the \<open>reduce\<close> is a plain object whose values are arrays of entries.
  It is kept as the list of its own properties in the order JavaScript enumerates them
  (\<open>Object.entries\<close>): keys that are array indices first, in ascending numeric order,
  then the other keys in the order they were created.
\<close>

type_synonym groups = "(string \<times> entry list) list"

definition digit_value :: "char \<Rightarrow> nat" where
  "digit_value c = of_char c - 48"

definition is_digit :: "char \<Rightarrow> bool" where
  "is_digit c = (48 \<le> (of_char c :: nat) \<and> (of_char c :: nat) \<le> 57)"

definition digits_value :: "string \<Rightarrow> nat" where
  "digits_value s = foldl (\<lambda>acc c. acc * 10 + digit_value c) 0 s"

text \<open>
  An array index is the canonical decimal text of an integer from 0 to \<open>2^32 - 2\<close>.
\<close>

definition is_array_index :: "string \<Rightarrow> bool" where
  "is_array_index s =
     (s \<noteq> [] \<and> list_all is_digit s \<and> digits_value s \<le> 4294967294
      \<and> string_of_nat (digits_value s) = s)"

text \<open>Creating the property \<open>k\<close>, which the object does not have yet.\<close>

fun insert_index :: "string \<Rightarrow> 'v \<Rightarrow> (string \<times> 'v) list \<Rightarrow> (string \<times> 'v) list" where
  "insert_index k v [] = [(k, v)]"
| "insert_index k v ((k', v') # rest) =
     (if is_array_index k' \<and> digits_value k' < digits_value k
      then (k', v') # insert_index k v rest
      else (k, v) # (k', v') # rest)"

definition create_prop :: "string \<Rightarrow> 'v \<Rightarrow> (string \<times> 'v) list \<Rightarrow> (string \<times> 'v) list" where
  "create_prop k v obj = (if is_array_index k then insert_index k v obj else obj @ [(k, v)])"

text \<open>\<open>acc[k].push(e)\<close> for an own property \<open>k\<close>.\<close>

fun push_to :: "string \<Rightarrow> entry \<Rightarrow> groups \<Rightarrow> groups" where
  "push_to k e [] = []"
| "push_to k e ((k', es) # rest) =
     (if k' = k then (k', es @ [e]) # rest else (k', es) # push_to k e rest)"

text \<open>
  One step of the reduction, for a group id already computed. The id is turned into a
  property key by \<open>String\<close>, which can throw. When the key is not an own property but
  names an inherited member of \<open>Object.prototype\<close>, \<open>acc[groupId]\<close> is that member: it
  is truthy, so no array is created, and it has no \<open>push\<close>, so the call throws a
  \<open>TypeError\<close>.
\<close>

definition group_step :: "(entry \<Rightarrow> jsval) \<Rightarrow> groups \<Rightarrow> entry \<Rightarrow> error + groups" where
  "group_step gid acc e =
     (case String_of (gid e) of
        Inl err \<Rightarrow> Inl err
      | Inr k \<Rightarrow>
          (case map_of acc k of
             Some es \<Rightarrow> Inr (push_to k e acc)
           | None \<Rightarrow>
               if k \<in> set objectPrototypeKeys then Inl TypeError
               else Inr (push_to k e (create_prop k [] acc))))"

fun reduce_groups :: "(entry \<Rightarrow> jsval) \<Rightarrow> groups \<Rightarrow> entry list \<Rightarrow> error + groups" where
  "reduce_groups gid acc [] = Inr acc"
| "reduce_groups gid acc (e # es) =
     (case group_step gid acc e of
        Inl err \<Rightarrow> Inl err
      | Inr acc' \<Rightarrow> reduce_groups gid acc' es)"

text \<open>
  The group id of the filtering viewer:
  \<open>entry.tf_req_id || entry.tf_http_trans_id || 'ungrouped'\<close>.
\<close>

definition groupId :: "entry \<Rightarrow> jsval" where
  "groupId e =
     js_or (js_or (entry_prop e ''tf_req_id'') (entry_prop e ''tf_http_trans_id''))
           (JStr ''ungrouped'')"

definition groupEntries :: "entry list \<Rightarrow> error + groups" where
  "groupEntries entries = reduce_groups groupId [] entries"

text \<open>
  The group id of the older viewer in EnhancedLogViewer.jsx:
  \<open>entry.tf_req_id || 'ungrouped'\<close>; the reduction is the same.
\<close>

definition groupId_plain :: "entry \<Rightarrow> jsval" where
  "groupId_plain e = js_or (entry_prop e ''tf_req_id'') (JStr ''ungrouped'')"

definition groupEntries_plain :: "entry list \<Rightarrow> error + groups" where
  "groupEntries_plain entries = reduce_groups groupId_plain [] entries"

text \<open>
  The key an entry is filed under, if its id converts to one, and keys in the order of
  their first occurrence.
\<close>

definition groupKey :: "entry \<Rightarrow> error + string" where
  "groupKey e = String_of (groupId e)"

fun first_seen :: "'a list \<Rightarrow> 'a list" where
  "first_seen [] = []"
| "first_seen (x # xs) = x # filter (\<lambda>y. y \<noteq> x) (first_seen xs)"


text \<open>
  What the accumulator holds after the entries \<open>P\<close> have been filed: one property per
  key met, holding the entries of that key in their order in \<open>P\<close>.
\<close>

definition grouped_by :: "(entry \<Rightarrow> jsval) \<Rightarrow> entry list \<Rightarrow> groups \<Rightarrow> bool" where
  "grouped_by gid P acc =
     (distinct (map fst acc)
      \<and> (\<forall>k. map_of acc k =
               (if Inr k \<in> (\<lambda>e. String_of (gid e)) ` set P
                then Some (filter (\<lambda>e. String_of (gid e) = Inr k) P) else None)))"

text \<open>
  The enumeration order of an object's keys: the array indices first, ascending, then the
  rest.
\<close>

definition index_first :: "string list \<Rightarrow> bool" where
  "index_first ks =
     (\<exists>a b. ks = a @ b \<and> (\<forall>x \<in> set a. is_array_index x) \<and> (\<forall>x \<in> set b. \<not> is_array_index x)
        \<and> sorted_wrt (<) (map digits_value a))"

text \<open>
  An identifier that is missing, \<open>null\<close> or the empty string; the key of the older
  viewer; and the example of the specification: three entries with correlation id
  \<open>X\<close>, two with none but transport id \<open>Y\<close>, one with neither.
\<close>

definition absent_or_empty :: "jsval \<Rightarrow> bool" where
  "absent_or_empty v = (v = JUndefined \<or> v = JNull \<or> v = JStr [])"

definition groupKey_plain :: "entry \<Rightarrow> error + string" where
  "groupKey_plain e = String_of (groupId_plain e)"

definition example_entries :: "entry list" where
  "example_entries =
     [mk_entry [(''id'', JNum ''1''), (''tf_req_id'', JStr ''X'')],
      mk_entry [(''id'', JNum ''2''), (''tf_req_id'', JStr ''X'')],
      mk_entry [(''id'', JNum ''3''), (''tf_req_id'', JStr ''X'')],
      mk_entry [(''id'', JNum ''4''), (''tf_http_trans_id'', JStr ''Y'')],
      mk_entry [(''id'', JNum ''5''), (''tf_http_trans_id'', JStr ''Y'')],
      mk_entry [(''id'', JNum ''6'')]]"


section \<open>Filtering (applyAllFilters)\<close>

text \<open>
  The filter state of the component. The two select boxes can be cleared, which leaves
  \<open>undefined\<close> (\<open>None\<close>); initially they hold the empty string.
\<close>

record filters =
  f_operation :: "string option"
  f_level :: "string option"
  f_resourceType :: string
  f_search :: string
  f_showRead :: bool

record dynamic_filter =
  df_field :: string
  df_value :: string

text \<open>\<open>filters.operation && filters.operation !== 'all'\<close>, and the same for the level.\<close>

definition active_choice :: "string option \<Rightarrow> bool" where
  "active_choice c = (case c of None \<Rightarrow> False | Some s \<Rightarrow> s \<noteq> [] \<and> s \<noteq> ''all'')"

text \<open>\<open>entry.operation === filters.operation\<close>: strict equality with a string.\<close>

definition strict_eq_choice :: "jsval \<Rightarrow> string option \<Rightarrow> bool" where
  "strict_eq_choice v c = (case c of None \<Rightarrow> v = JUndefined | Some s \<Rightarrow> v = JStr s)"

text \<open>
  \<open>v.toLowerCase()\<close>: only a string has the method; on anything else the call throws.
\<close>

definition call_toLowerCase :: "jsval \<Rightarrow> error + string" where
  "call_toLowerCase v = (case v of JStr s \<Rightarrow> Inr (toLowerCase s) | _ \<Rightarrow> Inl TypeError)"

text \<open>
  The search predicate:
  \<open>entry.message.toLowerCase().includes(q) || (entry.tf_rpc && entry.tf_rpc.toLowerCase().includes(q))\<close>
  with \<open>q = filters.search.toLowerCase()\<close>.
\<close>

definition search_match :: "string \<Rightarrow> entry \<Rightarrow> error + bool" where
  "search_match search e =
     (case call_toLowerCase (entry_prop e ''message'') of
        Inl err \<Rightarrow> Inl err
      | Inr m \<Rightarrow>
          if str_includes m (toLowerCase search) then Inr True
          else if \<not> truthy (entry_prop e ''tf_rpc'') then Inr False
          else (case call_toLowerCase (entry_prop e ''tf_rpc'') of
                  Inl err \<Rightarrow> Inl err
                | Inr r \<Rightarrow> Inr (str_includes r (toLowerCase search))))"

text \<open>\<open>Array.prototype.filter\<close> with a predicate that may throw.\<close>

fun filter_err :: "('a \<Rightarrow> error + bool) \<Rightarrow> 'a list \<Rightarrow> error + 'a list" where
  "filter_err p [] = Inr []"
| "filter_err p (x # xs) =
     (case p x of
        Inl err \<Rightarrow> Inl err
      | Inr b \<Rightarrow>
          (case filter_err p xs of
             Inl err \<Rightarrow> Inl err
           | Inr ys \<Rightarrow> Inr (if b then x # ys else ys)))"

text \<open>
  The value a dynamic filter compares:
  \<open>entry[df.field] || (entry.raw_data && entry.raw_data[df.field]) || ''\<close>.
\<close>

definition raw_lookup :: "entry \<Rightarrow> string \<Rightarrow> jsval" where
  "raw_lookup e f = (case raw_data e of None \<Rightarrow> JUndefined | Some obj \<Rightarrow> get_prop obj f)"

definition fieldValue :: "entry \<Rightarrow> string \<Rightarrow> jsval" where
  "fieldValue e f = js_or (js_or (entry_prop e f) (raw_lookup e f)) (JStr [])"

text \<open>
  One dynamic filter on one entry: inert when its field or its value is empty, else
  \<open>String(fieldValue).toLowerCase().includes(df.value.toLowerCase())\<close>, where
  \<open>String\<close> can throw.
\<close>

definition df_match :: "entry \<Rightarrow> dynamic_filter \<Rightarrow> error + bool" where
  "df_match e df =
     (if df_field df = [] \<or> df_value df = [] then Inr True
      else (case String_of (fieldValue e (df_field df)) of
              Inl err \<Rightarrow> Inl err
            | Inr txt \<Rightarrow> Inr (str_includes (toLowerCase txt) (toLowerCase (df_value df)))))"

text \<open>
  \<open>Array.prototype.every\<close> with a predicate that may throw: it stops at the first
  element the predicate rejects.
\<close>

fun every_err :: "('a \<Rightarrow> error + bool) \<Rightarrow> 'a list \<Rightarrow> error + bool" where
  "every_err p [] = Inr True"
| "every_err p (x # xs) =
     (case p x of
        Inl err \<Rightarrow> Inl err
      | Inr b \<Rightarrow> if b then every_err p xs else Inr False)"

definition dynamic_pass :: "dynamic_filter list \<Rightarrow> entry \<Rightarrow> error + bool" where
  "dynamic_pass dfs e = every_err (df_match e) dfs"

text \<open>
  The list \<open>filtered\<close> that \<open>applyAllFilters\<close> builds from \<open>allEntries\<close>, the filter state
  and the dynamic filters, or the error a predicate threw on the way.
\<close>

definition filtered_entries ::
    "entry list \<Rightarrow> filters \<Rightarrow> dynamic_filter list \<Rightarrow> error + entry list" where
  "filtered_entries allEntries flt dynamicFilters =
     (let filtered0 = allEntries;
          filtered1 = (if active_choice (f_operation flt)
                       then filter (\<lambda>e. strict_eq_choice (entry_prop e ''operation'') (f_operation flt)) filtered0
                       else filtered0);
          filtered2 = (if active_choice (f_level flt)
                       then filter (\<lambda>e. strict_eq_choice (entry_prop e ''level'') (f_level flt)) filtered1
                       else filtered1)
      in case (if f_search flt \<noteq> [] then filter_err (search_match (f_search flt)) filtered2
               else Inr filtered2) of
           Inl err \<Rightarrow> Inl err
         | Inr filtered3 \<Rightarrow>
             (let filtered4 = (if \<not> f_showRead flt
                               then filter (\<lambda>e. \<not> truthy (entry_prop e ''read'')) filtered3
                               else filtered3)
              in if length dynamicFilters > 0
                 then filter_err (dynamic_pass dynamicFilters) filtered4
                 else Inr filtered4))"

text \<open>
  \<open>applyAllFilters\<close> as a whole: it stores \<open>filtered\<close> and its length
  (\<open>setEntries\<close>, \<open>setTotalCount\<close>) and ends with \<open>groupEntries(filtered)\<close>, which stores
  the groups (\<open>setGroupedEntries\<close>). Nothing catches what a predicate or the grouping
  throws, so the function then throws as well.
\<close>

record view_state =
  entries :: "entry list"
  totalCount :: nat
  groupedEntries :: groups

definition applyAllFilters ::
    "entry list \<Rightarrow> filters \<Rightarrow> dynamic_filter list \<Rightarrow> error + view_state" where
  "applyAllFilters allEntries flt dynamicFilters =
     (case filtered_entries allEntries flt dynamicFilters of
        Inl err \<Rightarrow> Inl err
      | Inr filtered \<Rightarrow>
          (case groupEntries filtered of
             Inl err \<Rightarrow> Inl err
           | Inr grouped \<Rightarrow>
               Inr \<lparr> entries = filtered, totalCount = length filtered,
                     groupedEntries = grouped \<rparr>))"





definition mk_filters :: "string option \<Rightarrow> string option \<Rightarrow> string \<Rightarrow> bool \<Rightarrow> filters" where
  "mk_filters op lv se sr =
     \<lparr> f_operation = op, f_level = lv, f_resourceType = [], f_search = se, f_showRead = sr \<rparr>"




text \<open>The filter state the component starts with.\<close>

definition initial_filters :: filters where
  "initial_filters =
     \<lparr> f_operation = Some [], f_level = Some [], f_resourceType = [], f_search = [],
       f_showRead = True \<rparr>"


section \<open>Scoring: lemmas\<close>

lemma or_default_Some: "or_default (Some n) d = (if n = 0 then d else n)"
  by (simp add: or_default_def)

lemma or_default_zero_id: "or_default (Some n) 0 = n"
  by (simp add: or_default_def)

lemma cqs_score:
  "score (calculateQualityScore st) =
     max 0 (min 100 (100 - or_default (levels_error st) 0 * 10 - or_default (levels_warn st) 0 * 2))"
  unfolding calculateQualityScore_def Let_def by (simp only: quality_score.simps)

lemma cqs_grade: "grade (calculateQualityScore st) = grade_of (score (calculateQualityScore st))"
  unfolding calculateQualityScore_def Let_def by (simp only: quality_score.simps)

lemma cqs_breakdown:
  "qs_breakdown (calculateQualityScore st) =
     \<lparr> base_score = 100,
       error_penalty = or_default (levels_error st) 0 * 10,
       warning_penalty = or_default (levels_warn st) 0 * 2,
       error_count = or_default (levels_error st) 0,
       warning_count = or_default (levels_warn st) 0,
       bd_total_entries = or_default (total_entries st) 1 \<rparr>"
  unfolding calculateQualityScore_def Let_def by (simp only: quality_score.simps)

lemma cqs_recommendations:
  "recommendations (calculateQualityScore st) =
     recommendations_of (or_default (total_entries st) 1)
       (or_default (levels_error st) 0) (or_default (levels_warn st) 0)"
  unfolding calculateQualityScore_def Let_def by (simp only: quality_score.simps)

lemma score_of_total: "total_entries \<lparr> total_entries = Some t,
         stats_levels = Some \<lparr> lv_error = Some e, lv_warn = Some w \<rparr> \<rparr> = Some t"
  by simp

lemma score_of_error: "levels_error \<lparr> total_entries = Some t,
         stats_levels = Some \<lparr> lv_error = Some e, lv_warn = Some w \<rparr> \<rparr> = Some e"
  by (simp add: levels_error_def)

lemma score_of_warn: "levels_warn \<lparr> total_entries = Some t,
         stats_levels = Some \<lparr> lv_error = Some e, lv_warn = Some w \<rparr> \<rparr> = Some w"
  by (simp add: levels_warn_def)

lemma score_of_score: "score (score_of t e w) = clamp (100 - e * 10 - w * 2) 0 100"
  unfolding score_of_def cqs_score score_of_error score_of_warn or_default_zero_id clamp_def
  by (rule refl)

lemma score_of_grade: "grade (score_of t e w) = grade_of (score (score_of t e w))"
  unfolding score_of_def by (rule cqs_grade)

lemma score_of_breakdown:
  "qs_breakdown (score_of t e w) =
     \<lparr> base_score = 100, error_penalty = e * 10, warning_penalty = w * 2,
       error_count = e, warning_count = w,
       bd_total_entries = (if t = 0 then 1 else t) \<rparr>"
  unfolding score_of_def cqs_breakdown score_of_error score_of_warn score_of_total
    or_default_Some
  by simp

lemma score_of_recommendations:
  "recommendations (score_of t e w) = recommendations_of (if t = 0 then 1 else t) e w"
  unfolding score_of_def cqs_recommendations score_of_error score_of_warn score_of_total
    or_default_Some
  by simp

lemma recommendations_of_clamped:
  "recommendations_of t e w = recommendations_of t (max e 0) (max w 0)"
  by (simp add: recommendations_of_def Let_def max_def)

lemma string_of_nat_digit: "n < 10 \<Longrightarrow> string_of_nat n = [''0123456789'' ! n]"
  by (simp add: string_of_nat.simps)


text \<open>
  C1. For all non-negative integer inputs, \<open>score(totalEntries, errorCount, warningCount)\<close>
  has score \<open>clamp(100 - errorCount*10 - warningCount*2, 0, 100)\<close> (rounding is the
  identity on integers) and grade A from 90, B from 80, C from 70, D from 60, F below;
  \<open>score(10, 2, 1)\<close> has score 78 and grade C.
\<close>

theorem C1_score_formula_and_grade:
  "(\<forall>t e w. 0 \<le> t \<and> 0 \<le> e \<and> 0 \<le> w \<longrightarrow>
       score (score_of t e w) = clamp (100 - e * 10 - w * 2) 0 100
     \<and> grade (score_of t e w) =
         (if score (score_of t e w) \<ge> 90 then ''A''
          else if score (score_of t e w) \<ge> 80 then ''B''
          else if score (score_of t e w) \<ge> 70 then ''C''
          else if score (score_of t e w) \<ge> 60 then ''D''
          else ''F''))
   \<and> score (score_of 10 2 1) = 78 \<and> grade (score_of 10 2 1) = ''C''"
proof -
  have general: "score (score_of t e w) = clamp (100 - e * 10 - w * 2) 0 100
     \<and> grade (score_of t e w) =
         (if score (score_of t e w) \<ge> 90 then ''A''
          else if score (score_of t e w) \<ge> 80 then ''B''
          else if score (score_of t e w) \<ge> 70 then ''C''
          else if score (score_of t e w) \<ge> 60 then ''D''
          else ''F'')" for t e w
    unfolding score_of_grade grade_of_def by (simp add: score_of_score)
  have s: "score (score_of 10 2 1) = 78"
    by (simp add: score_of_score clamp_def)
  have g: "grade (score_of 10 2 1) = ''C''"
    unfolding score_of_grade s by (simp add: grade_of_def)
  from general s g show ?thesis by blast
qed

theorem C1_witness:
  "(0::int) \<le> 3 \<and> (0::int) \<le> 1 \<and> (0::int) \<le> 4
   \<and> score (score_of 3 1 4) = 82 \<and> grade (score_of 3 1 4) = ''B''"
proof -
  have h: "(0::int) \<le> 3 \<and> (0::int) \<le> 1 \<and> (0::int) \<le> 4" by simp
  from C1_score_formula_and_grade have
    "score (score_of 3 1 4) = clamp (100 - 1 * 10 - 4 * 2) 0 100
     \<and> grade (score_of 3 1 4) =
         (if score (score_of 3 1 4) \<ge> 90 then ''A''
          else if score (score_of 3 1 4) \<ge> 80 then ''B''
          else if score (score_of 3 1 4) \<ge> 70 then ''C''
          else if score (score_of 3 1 4) \<ge> 60 then ''D''
          else ''F'')"
    using h by blast
  then show ?thesis by (simp add: clamp_def)
qed

text \<open>
  C8. \<open>score(0, 0, 0)\<close> on the code: \<open>stats.total_entries || 1\<close> turns a total of 0
  into 1 before the recommendations are built, so the branch
  \<open>if (totalEntries === 0)\<close> that pushes the no-data prompt is never taken. The score is
  100 and the grade A, but the single recommendation is the "excellent" acknowledgment,
  and the breakdown reports one entry.
\<close>

theorem C8_no_data_input_on_code:
  "score (score_of 0 0 0) = 100
   \<and> grade (score_of 0 0 0) = ''A''
   \<and> recommendations (score_of 0 0 0) = [''Configuration quality is excellent!'']
   \<and> bd_total_entries (qs_breakdown (score_of 0 0 0)) = 1
   \<and> ''Upload Terraform logs to get quality assessment''
        \<notin> set (recommendations (score_of 0 0 0))"
proof -
  have s: "score (score_of 0 0 0) = 100"
    by (simp add: score_of_score clamp_def)
  have g: "grade (score_of 0 0 0) = ''A''"
    unfolding score_of_grade s by (simp add: grade_of_def)
  have r: "recommendations (score_of 0 0 0) = [''Configuration quality is excellent!'']"
    by (simp add: score_of_recommendations recommendations_of_def)
  have b: "bd_total_entries (qs_breakdown (score_of 0 0 0)) = 1"
    by (simp add: score_of_breakdown)
  have n: "''Upload Terraform logs to get quality assessment''
        \<notin> set (recommendations (score_of 0 0 0))"
    unfolding r by simp
  from s g r b n show ?thesis by blast
qed

text \<open>
  The no-data prompt cannot be produced by any statistics object at all: the total the
  recommendations see is never 0.
\<close>

lemma no_data_prompt_unreachable:
  "''Upload Terraform logs to get quality assessment''
     \<notin> set (recommendations (calculateQualityScore st))"
proof -
  have t: "or_default (total_entries st) 1 \<noteq> 0"
    by (simp add: or_default_def split: option.splits)
  show ?thesis
    unfolding cqs_recommendations using t by (simp add: recommendations_of_def Let_def)
qed

text \<open>
  C9 as stated: with a negative \<open>errorCount\<close> or \<open>warningCount\<close>, score, penalties and
  recommendations equal those of the same input with each negative count replaced by 0.
  The code never replaces a count: at \<open>(10, -5, 30)\<close> the negative error count yields a
  penalty of \<open>-50\<close> and a score of 90, where the clamped input \<open>(10, 0, 30)\<close> has
  penalty 0 and score 40.
\<close>

theorem C9_counterexample:
  "\<not> (score (score_of 10 (- 5) 30) = score (score_of 10 (max (- 5) 0) (max 30 0))
      \<and> error_penalty (qs_breakdown (score_of 10 (- 5) 30))
          = error_penalty (qs_breakdown (score_of 10 (max (- 5) 0) (max 30 0))))"
  by (simp add: score_of_score score_of_breakdown clamp_def)

text \<open>
  C9, amended. A negative \<open>errorCount\<close> or \<open>warningCount\<close> is not rejected and not
  clamped. For counts of magnitude up to \<open>2^49\<close>, where the code's double arithmetic is
  exact, the penalties are \<open>errorCount*10\<close> and \<open>warningCount*2\<close> on the counts as
  given (a negative count gives a negative penalty), the breakdown reports the counts as
  given, and only the resulting score is clamped to 0..100. The recommendations do equal
  those of the input with each negative count replaced by 0.
\<close>

theorem C9_negative_counts_not_clamped:
  "e < 0 \<or> w < 0 \<Longrightarrow> \<bar>e\<bar> \<le> 2 ^ 49 \<Longrightarrow> \<bar>w\<bar> \<le> 2 ^ 49 \<Longrightarrow>
     score (score_of t e w) = clamp (100 - e * 10 - w * 2) 0 100
   \<and> error_penalty (qs_breakdown (score_of t e w)) = e * 10
   \<and> warning_penalty (qs_breakdown (score_of t e w)) = w * 2
   \<and> error_count (qs_breakdown (score_of t e w)) = e
   \<and> warning_count (qs_breakdown (score_of t e w)) = w
   \<and> recommendations (score_of t e w)
       = recommendations (score_of t (max e 0) (max w 0))"
proof -
  have r: "recommendations (score_of t e w)
       = recommendations (score_of t (max e 0) (max w 0))"
    unfolding score_of_recommendations by (rule recommendations_of_clamped)
  show ?thesis
    using r by (simp add: score_of_score score_of_breakdown)
qed

theorem C9_witness:
  "((- 5 :: int) < 0 \<or> (30 :: int) < 0) \<and> \<bar>- 5 :: int\<bar> \<le> 2 ^ 49 \<and> \<bar>30 :: int\<bar> \<le> 2 ^ 49
   \<and> score (score_of 10 (- 5) 30) = 90
   \<and> error_penalty (qs_breakdown (score_of 10 (- 5) 30)) = - 50
   \<and> warning_penalty (qs_breakdown (score_of 10 (- 5) 30)) = 60
   \<and> recommendations (score_of 10 (- 5) 30) = recommendations (score_of 10 0 30)"
proof -
  have h: "(- 5 :: int) < 0 \<or> (30 :: int) < 0" by simp
  have be: "\<bar>- 5 :: int\<bar> \<le> 2 ^ 49" by simp
  have bw: "\<bar>30 :: int\<bar> \<le> 2 ^ 49" by simp
  from C9_negative_counts_not_clamped [OF h be bw, of 10] h be bw show ?thesis
    by (simp add: clamp_def)
qed


section \<open>Timeline layout: lemmas\<close>

lemma min2_NaN_right: "min2 a NaN = NaN"
  by (cases a) simp_all

lemma max2_NaN_right: "max2 a NaN = NaN"
  by (cases a) simp_all

lemma Math_min_Fin:
  "Math_min (map Fin xs) = (if xs = [] then PInf else Fin (Min (set xs)))"
  unfolding Math_min_def
proof (induction xs)
  case Nil
  show ?case by simp
next
  case (Cons x xs)
  show ?case
  proof (cases "xs = []")
    case True
    then show ?thesis by simp
  next
    case False
    with Cons show ?thesis by simp
  qed
qed

lemma Math_max_Fin:
  "Math_max (map Fin xs) = (if xs = [] then NInf else Fin (Max (set xs)))"
  unfolding Math_max_def
proof (induction xs)
  case Nil
  show ?case by simp
next
  case (Cons x xs)
  show ?case
  proof (cases "xs = []")
    case True
    then show ?thesis by simp
  next
    case False
    with Cons show ?thesis by simp
  qed
qed

lemma Math_min_NaN: "NaN \<in> set xs \<Longrightarrow> Math_min xs = NaN"
  unfolding Math_min_def
  by (induction xs) (auto simp: min2_NaN_right)

lemma Math_max_NaN: "NaN \<in> set xs \<Longrightarrow> Math_max xs = NaN"
  unfolding Math_max_def
  by (induction xs) (auto simp: max2_NaN_right)

lemma timestamps_parses:
  "list_all parses segs \<Longrightarrow> timestamps segs = map (\<lambda>t. Fin (real_of_int t)) (instants segs)"
  by (induction segs) (auto simp: timestamps_def instants_def parses_def getTime_def)

lemma instants_nonempty: "segs \<noteq> [] \<Longrightarrow> list_all parses segs \<Longrightarrow> instants segs \<noteq> []"
  by (cases segs) (auto simp: instants_def parses_def)

lemma timestamps_NaN:
  "\<not> list_all parses segs \<Longrightarrow> NaN \<in> set (timestamps segs)"
  by (induction segs) (auto simp: timestamps_def parses_def getTime_def)


lemma getTimelineScale_nonempty:
  "segs \<noteq> [] \<Longrightarrow> getTimelineScale now segs =
     \<lparr> scale_min = Math_min (timestamps segs), scale_max = Math_max (timestamps segs),
       scale_range = num_or (num_sub (Math_max (timestamps segs)) (Math_min (timestamps segs))) (Fin 1) \<rparr>"
  by (simp add: getTimelineScale_def Let_def)

lemma scale_of_parsed:
  assumes ne: "segs \<noteq> []" and ok: "list_all parses segs"
  shows "getTimelineScale now segs =
     \<lparr> scale_min = Fin (real_of_int (Min (set (instants segs)))),
       scale_max = Fin (real_of_int (Max (set (instants segs)))),
       scale_range = Fin (if Max (set (instants segs)) = Min (set (instants segs)) then 1
                          else real_of_int (Max (set (instants segs)) - Min (set (instants segs)))) \<rparr>"
proof -
  let ?ts = "instants segs"
  have ine: "?ts \<noteq> []" using ne ok by (rule instants_nonempty)
  have ts: "timestamps segs = map Fin (map real_of_int ?ts)"
    using ok by (simp add: timestamps_parses)
  have mono: "mono real_of_int" by (simp add: mono_def)
  have mn: "Math_min (timestamps segs) = Fin (real_of_int (Min (set ?ts)))"
    unfolding ts Math_min_Fin using ine
    by (simp add: mono_Min_commute [OF mono, symmetric])
  have mx: "Math_max (timestamps segs) = Fin (real_of_int (Max (set ?ts)))"
    unfolding ts Math_max_Fin using ine
    by (simp add: mono_Max_commute [OF mono, symmetric])
  show ?thesis
    unfolding getTimelineScale_nonempty [OF ne] mn mx
    by (simp add: num_or_def)
qed

lemma scale_of_unparsed:
  assumes bad: "\<not> list_all parses segs"
  shows "getTimelineScale now segs = \<lparr> scale_min = NaN, scale_max = NaN, scale_range = Fin 1 \<rparr>"
proof -
  have ne: "segs \<noteq> []" using bad by auto
  have n: "NaN \<in> set (timestamps segs)" using bad by (rule timestamps_NaN)
  show ?thesis
    unfolding getTimelineScale_nonempty [OF ne] Math_min_NaN [OF n] Math_max_NaN [OF n]
    by (simp add: num_or_def)
qed

lemma instants_member:
  "item \<in> set segs \<Longrightarrow> seg_start item = Some a \<Longrightarrow> a \<in> set (instants segs)"
  by (induction segs) (auto simp: instants_def)

lemma bar_left_eq:
  "bar_left (getBarStyle sc item) =
     num_mul (num_div (num_sub (getTime (seg_start item)) (scale_min sc)) (scale_range sc)) (Fin 100)"
  by (simp add: getBarStyle_def Let_def)

lemma bar_width_eq:
  "bar_width (getBarStyle sc item) =
     max2 (num_mul (num_div (num_sub (getTime (seg_end item)) (getTime (seg_start item)))
                            (scale_range sc)) (Fin 100)) (Fin (1 / 2))"
  by (simp add: getBarStyle_def Let_def)

lemma fraction_bounds:
  fixes a m M :: int
  assumes "m \<le> a" "a \<le> M"
  defines "r \<equiv> (if M = m then 1 else real_of_int (M - m))"
  shows "0 \<le> (real_of_int a - real_of_int m) / r * 100"
    and "(real_of_int a - real_of_int m) / r * 100 \<le> 100"
    and "r \<noteq> 0"
proof -
  have rpos: "0 < r" using assms by (auto simp: r_def)
  then show "r \<noteq> 0" by simp
  have d0: "0 \<le> real_of_int a - real_of_int m" using assms by simp
  have d1: "real_of_int a - real_of_int m \<le> r" using assms by (auto simp: r_def)
  show "0 \<le> (real_of_int a - real_of_int m) / r * 100" using d0 rpos by simp
  have "(real_of_int a - real_of_int m) / r \<le> 1" using d1 rpos by simp
  then have "(real_of_int a - real_of_int m) / r * 100 \<le> 1 * 100"
    by (rule mult_right_mono) simp
  then show "(real_of_int a - real_of_int m) / r * 100 \<le> 100" by (simp only: mult_1)
qed

text \<open>
  C7, amended. For every non-empty segment collection whose start and end times all
  parse, with the scale computed over the collection itself, every segment of it is
  positioned at \<open>leftPercent = (start - scale.min) / scale.range * 100\<close>, which lies in
  \<open>[0, 100]\<close>, with \<open>widthPercent = max((end - start) / scale.range * 100, 0.5)\<close>, which
  is at least \<open>0.5\<close>. The division is by a range that is not zero.
\<close>

theorem C7_bar_geometry:
  assumes ne: "segs \<noteq> []" and ok: "list_all parses segs"
    and mem: "item \<in> set segs"
    and st: "seg_start item = Some a" and en: "seg_end item = Some b"
  shows "\<exists>m r l w.
           scale_min (getTimelineScale now segs) = Fin m
         \<and> scale_range (getTimelineScale now segs) = Fin r \<and> r \<noteq> 0
         \<and> bar_left (getBarStyle (getTimelineScale now segs) item) = Fin l
         \<and> l = (real_of_int a - m) / r * 100 \<and> 0 \<le> l \<and> l \<le> 100
         \<and> bar_width (getBarStyle (getTimelineScale now segs) item) = Fin w
         \<and> w = max ((real_of_int b - real_of_int a) / r * 100) (1 / 2) \<and> 1 / 2 \<le> w"
proof -
  let ?I = "set (instants segs)"
  let ?m = "Min ?I" and ?M = "Max ?I"
  let ?r = "(if ?M = ?m then 1 else real_of_int (?M - ?m))"
  have ain: "a \<in> ?I" using mem st by (rule instants_member)
  have fin: "finite ?I" by simp
  have lo: "?m \<le> a" using fin ain by (rule Min_le)
  have hi: "a \<le> ?M" using fin ain by (rule Max_ge)
  note sc = scale_of_parsed [OF ne ok, of now]
  have r0: "?r \<noteq> 0" using fraction_bounds(3) [OF lo hi] .
  have l0: "0 \<le> (real_of_int a - real_of_int ?m) / ?r * 100"
    using fraction_bounds(1) [OF lo hi] .
  have l1: "(real_of_int a - real_of_int ?m) / ?r * 100 \<le> 100"
    using fraction_bounds(2) [OF lo hi] .
  have smin: "scale_min (getTimelineScale now segs) = Fin (real_of_int ?m)"
    unfolding sc by simp
  have srng: "scale_range (getTimelineScale now segs) = Fin ?r"
    unfolding sc by simp
  have left: "bar_left (getBarStyle (getTimelineScale now segs) item)
                = Fin ((real_of_int a - real_of_int ?m) / ?r * 100)"
    unfolding bar_left_eq smin srng st getTime_def using r0 by simp
  have width: "bar_width (getBarStyle (getTimelineScale now segs) item)
                = Fin (max ((real_of_int b - real_of_int a) / ?r * 100) (1 / 2))"
    unfolding bar_width_eq srng st en getTime_def using r0 by simp
  have wlow: "1 / 2 \<le> max ((real_of_int b - real_of_int a) / ?r * 100) (1 / 2)"
    by simp
  from smin srng r0 left l0 l1 width wlow show ?thesis by blast
qed



lemma mk_segment_sel:
  "seg_start (mk_segment i ty a b) = a" "seg_end (mk_segment i ty a b) = b"
  "seg_type (mk_segment i ty a b) = ty" "seg_id (mk_segment i ty a b) = i"
  by (simp_all add: mk_segment_def)

lemma num_sub_NaN_right: "num_sub a NaN = NaN"
  by (cases a) simp_all

lemma layout_bars: "snd (layout now segs) = map (getBarStyle (getTimelineScale now segs)) segs"
  by (simp add: layout_def Let_def)

lemma layout_scale: "fst (layout now segs) = getTimelineScale now segs"
  by (simp add: layout_def Let_def)

text \<open>
  C6 as stated: for every segment collection, the empty one included, the scale's range
  is floored to 1 and so never 0. For the empty collection the code returns the literal
  \<open>range: 0\<close>.
\<close>

theorem C6_counterexample:
  "scale_range (getTimelineScale 1700000000000 []) = Fin 0
   \<and> scale_range (getTimelineScale 1700000000000 []) \<noteq> Fin 1"
  by (simp add: getTimelineScale_def)

text \<open>
  C6, amended. For every non-empty segment collection whose start and end instants all
  parse, \<open>min\<close> is the smallest start/end instant across all segments, \<open>max\<close> the
  largest, and \<open>range = max - min\<close>, floored to 1 when \<open>max - min\<close> is zero, so it is
  never 0 there. For the empty collection the scale is
  \<open>{min: now, max: now, range: 0}\<close>: its range is 0.
\<close>

theorem C6_scale_of_collection:
  "(segs \<noteq> [] \<and> list_all parses segs \<longrightarrow>
      (\<exists>m M. scale_min (getTimelineScale now segs) = Fin (real_of_int m)
           \<and> scale_max (getTimelineScale now segs) = Fin (real_of_int M)
           \<and> m \<in> set (instants segs) \<and> M \<in> set (instants segs)
           \<and> (\<forall>t \<in> set (instants segs). m \<le> t \<and> t \<le> M)
           \<and> scale_range (getTimelineScale now segs)
               = Fin (if M = m then 1 else real_of_int M - real_of_int m)
           \<and> scale_range (getTimelineScale now segs) \<noteq> Fin 0))
   \<and> getTimelineScale now [] =
       \<lparr> scale_min = Fin (real_of_int now), scale_max = Fin (real_of_int now),
         scale_range = Fin 0 \<rparr>"
proof -
  have empty: "getTimelineScale now [] =
       \<lparr> scale_min = Fin (real_of_int now), scale_max = Fin (real_of_int now),
         scale_range = Fin 0 \<rparr>"
    by (simp add: getTimelineScale_def)
  have nonempty: "\<exists>m M. scale_min (getTimelineScale now segs) = Fin (real_of_int m)
           \<and> scale_max (getTimelineScale now segs) = Fin (real_of_int M)
           \<and> m \<in> set (instants segs) \<and> M \<in> set (instants segs)
           \<and> (\<forall>t \<in> set (instants segs). m \<le> t \<and> t \<le> M)
           \<and> scale_range (getTimelineScale now segs)
               = Fin (if M = m then 1 else real_of_int M - real_of_int m)
           \<and> scale_range (getTimelineScale now segs) \<noteq> Fin 0"
    if ne: "segs \<noteq> []" and ok: "list_all parses segs"
  proof -
    let ?I = "set (instants segs)"
    have fin: "finite ?I" by simp
    have nonemp: "?I \<noteq> {}" using instants_nonempty [OF ne ok] by simp
    note sc = scale_of_parsed [OF ne ok, of now]
    have a: "scale_min (getTimelineScale now segs) = Fin (real_of_int (Min ?I))"
      unfolding sc by simp
    have b: "scale_max (getTimelineScale now segs) = Fin (real_of_int (Max ?I))"
      unfolding sc by simp
    have c: "Min ?I \<in> ?I" using fin nonemp by (rule Min_in)
    have d: "Max ?I \<in> ?I" using fin nonemp by (rule Max_in)
    have e: "\<forall>t \<in> ?I. Min ?I \<le> t \<and> t \<le> Max ?I" using fin by simp
    have f: "scale_range (getTimelineScale now segs)
               = Fin (if Max ?I = Min ?I then 1 else real_of_int (Max ?I) - real_of_int (Min ?I))"
      unfolding sc by simp
    have g: "scale_range (getTimelineScale now segs) \<noteq> Fin 0"
      unfolding f by simp
    from a b c d e f g show ?thesis by blast
  qed
  from empty nonempty show ?thesis by blast
qed

theorem C6_witness:
  "[mk_segment ''a'' ''plan'' (Some 1000) (Some 3000),
    mk_segment ''b'' ''apply'' (Some 2000) (Some 5000)] \<noteq> []
   \<and> list_all parses [mk_segment ''a'' ''plan'' (Some 1000) (Some 3000),
                       mk_segment ''b'' ''apply'' (Some 2000) (Some 5000)]
   \<and> scale_range (getTimelineScale 0
        [mk_segment ''a'' ''plan'' (Some 1000) (Some 3000),
         mk_segment ''b'' ''apply'' (Some 2000) (Some 5000)]) \<noteq> Fin 0
   \<and> scale_range (getTimelineScale 0 []) = Fin 0"
proof -
  let ?S = "[mk_segment ''a'' ''plan'' (Some 1000) (Some 3000),
             mk_segment ''b'' ''apply'' (Some 2000) (Some 5000)]"
  have h: "?S \<noteq> [] \<and> list_all parses ?S"
    by (simp add: parses_def mk_segment_sel)
  have e: "scale_range (getTimelineScale 0 []) = Fin 0"
    using C6_scale_of_collection [of "[]" 0] by simp
  have n: "scale_range (getTimelineScale 0 ?S) \<noteq> Fin 0"
    using C6_scale_of_collection [of ?S 0] h by blast
  from h e n show ?thesis by blast
qed

theorem C7_witness:
  "[mk_segment ''a'' ''plan'' (Some 1000) (Some 3000),
    mk_segment ''b'' ''apply'' (Some 2000) (Some 5000)] \<noteq> []
   \<and> list_all parses [mk_segment ''a'' ''plan'' (Some 1000) (Some 3000),
                       mk_segment ''b'' ''apply'' (Some 2000) (Some 5000)]
   \<and> bar_left (getBarStyle (getTimelineScale 0
        [mk_segment ''a'' ''plan'' (Some 1000) (Some 3000),
         mk_segment ''b'' ''apply'' (Some 2000) (Some 5000)])
        (mk_segment ''b'' ''apply'' (Some 2000) (Some 5000))) = Fin 25
   \<and> bar_width (getBarStyle (getTimelineScale 0
        [mk_segment ''a'' ''plan'' (Some 1000) (Some 3000),
         mk_segment ''b'' ''apply'' (Some 2000) (Some 5000)])
        (mk_segment ''b'' ''apply'' (Some 2000) (Some 5000))) = Fin 75"
proof -
  let ?a = "mk_segment ''a'' ''plan'' (Some 1000) (Some 3000)"
  let ?b = "mk_segment ''b'' ''apply'' (Some 2000) (Some 5000)"
  let ?S = "[?a, ?b]"
  have ne: "?S \<noteq> []" by simp
  have ok: "list_all parses ?S" by (simp add: parses_def mk_segment_sel)
  have mem: "?b \<in> set ?S" by simp
  have st: "seg_start ?b = Some 2000" and en: "seg_end ?b = Some 5000"
    by (simp_all add: mk_segment_sel)
  have sc: "getTimelineScale 0 ?S =
      \<lparr> scale_min = Fin 1000, scale_max = Fin 5000, scale_range = Fin 4000 \<rparr>"
    by (simp add: getTimelineScale_def timestamps_def Math_min_def Math_max_def
        getTime_def num_or_def mk_segment_sel)
  obtain m r l w where
      "scale_min (getTimelineScale 0 ?S) = Fin m"
      "scale_range (getTimelineScale 0 ?S) = Fin r"
      "bar_left (getBarStyle (getTimelineScale 0 ?S) ?b) = Fin l"
      "l = (real_of_int 2000 - m) / r * 100"
      "bar_width (getBarStyle (getTimelineScale 0 ?S) ?b) = Fin w"
      "w = max ((real_of_int 5000 - real_of_int 2000) / r * 100) (1 / 2)"
    using C7_bar_geometry [OF ne ok mem st en, of 0] by blast
  then have "bar_left (getBarStyle (getTimelineScale 0 ?S) ?b) = Fin 25"
     and "bar_width (getBarStyle (getTimelineScale 0 ?S) ?b) = Fin 75"
    unfolding sc by simp_all
  with ne ok show ?thesis by blast
qed

text \<open>
  C7 as stated, for every non-empty collection: a collection of two segments, the first
  with a start time that does not parse. The scale is computed over the collection
  itself, yet the left offset of the well-formed second segment is \<open>NaN\<close>, which is not
  in \<open>[0, 100]\<close>, and the width of the first segment is \<open>NaN\<close>, which is not at least
  \<open>0.5\<close>.
\<close>

theorem C7_counterexample:
  "bar_left (getBarStyle
       (getTimelineScale 0 [mk_segment ''a'' ''plan'' None (Some 2000),
                            mk_segment ''b'' ''apply'' (Some 1000) (Some 3000)])
       (mk_segment ''b'' ''apply'' (Some 1000) (Some 3000))) = NaN
   \<and> bar_width (getBarStyle
       (getTimelineScale 0 [mk_segment ''a'' ''plan'' None (Some 2000),
                            mk_segment ''b'' ''apply'' (Some 1000) (Some 3000)])
       (mk_segment ''a'' ''plan'' None (Some 2000))) = NaN
   \<and> [mk_segment ''a'' ''plan'' None (Some 2000),
       mk_segment ''b'' ''apply'' (Some 1000) (Some 3000)] \<noteq> []"
  by (simp add: bar_left_eq bar_width_eq getTimelineScale_def timestamps_def Math_min_def
      Math_max_def getTime_def num_or_def mk_segment_sel)

text \<open>
  C10 as stated: a segment with an unparseable time is left out of the scale and of the
  positioning, the rest of the layout is intact, and the number of skipped segments is
  reported. On the code, one segment with an invalid start date next to a good segment
  turns the scale into \<open>{min: NaN, max: NaN, range: 1}\<close> where the good segment alone
  gives \<open>{1000, 3000, 2000}\<close>; both segments are still positioned, and the good
  segment's left offset is \<open>NaN\<close> instead of 0. The layout has no component that could
  carry a count.
\<close>

theorem C10_counterexample:
  "getTimelineScale 0 [mk_segment ''bad'' ''plan'' None (Some 5),
                       mk_segment ''good'' ''apply'' (Some 1000) (Some 3000)]
     = \<lparr> scale_min = NaN, scale_max = NaN, scale_range = Fin 1 \<rparr>
   \<and> getTimelineScale 0 [mk_segment ''good'' ''apply'' (Some 1000) (Some 3000)]
     = \<lparr> scale_min = Fin 1000, scale_max = Fin 3000, scale_range = Fin 2000 \<rparr>
   \<and> map bar_left (snd (layout 0 [mk_segment ''bad'' ''plan'' None (Some 5),
                       mk_segment ''good'' ''apply'' (Some 1000) (Some 3000)]))
     = [NaN, NaN]
   \<and> map bar_left (snd (layout 0 [mk_segment ''good'' ''apply'' (Some 1000) (Some 3000)]))
     = [Fin 0]"
  by (simp add: layout_def getBarStyle_def getTimelineScale_def timestamps_def Math_min_def
      Math_max_def getTime_def num_or_def mk_segment_sel)

text \<open>
  C10, amended. For every segment collection containing a segment with an unparseable
  start or end time, the timeline layout excludes nothing and reports no count: the scale
  is \<open>{min: NaN, max: NaN, range: 1}\<close>, every segment of the collection is still
  positioned, and every positioned segment's left offset is \<open>NaN\<close>.
\<close>

theorem C10_unparseable_times_poison_layout:
  assumes bad: "\<exists>item \<in> set segs. seg_start item = None \<or> seg_end item = None"
  shows "fst (layout now segs) = \<lparr> scale_min = NaN, scale_max = NaN, scale_range = Fin 1 \<rparr>
       \<and> length (snd (layout now segs)) = length segs
       \<and> (\<forall>bar \<in> set (snd (layout now segs)). bar_left bar = NaN)"
proof -
  have np: "\<not> list_all parses segs"
    using bad by (auto simp: list_all_iff parses_def)
  note sc = scale_of_unparsed [OF np, of now]
  have left: "bar_left (getBarStyle (getTimelineScale now segs) item) = NaN" for item
    unfolding bar_left_eq sc by (simp add: num_sub_NaN_right)
  show ?thesis
    unfolding layout_scale layout_bars using sc left by auto
qed

theorem C10_witness:
  "(\<exists>item \<in> set [mk_segment ''bad'' ''plan'' None (Some 5),
                    mk_segment ''good'' ''apply'' (Some 1000) (Some 3000)].
        seg_start item = None \<or> seg_end item = None)
   \<and> length (snd (layout 0 [mk_segment ''bad'' ''plan'' None (Some 5),
                    mk_segment ''good'' ''apply'' (Some 1000) (Some 3000)])) = 2
   \<and> scale_range (fst (layout 0 [mk_segment ''bad'' ''plan'' None (Some 5),
                    mk_segment ''good'' ''apply'' (Some 1000) (Some 3000)])) = Fin 1"
proof -
  let ?S = "[mk_segment ''bad'' ''plan'' None (Some 5),
             mk_segment ''good'' ''apply'' (Some 1000) (Some 3000)]"
  have h: "\<exists>item \<in> set ?S. seg_start item = None \<or> seg_end item = None"
    by (simp add: mk_segment_sel)
  from C10_unparseable_times_poison_layout [OF h, of 0] h show ?thesis by simp
qed


section \<open>Correlation grouping: lemmas\<close>

subsection \<open>The accumulator object\<close>

lemma map_fst_push_to: "map fst (push_to k e acc) = map fst acc"
  by (induction acc) auto

lemma map_of_push_to:
  "map_of (push_to k e acc) k' =
     (if k' = k then map_option (\<lambda>es. es @ [e]) (map_of acc k) else map_of acc k')"
  by (induction acc) auto

lemma set_insert_index: "set (insert_index k v obj) = insert (k, v) (set obj)"
  by (induction obj) (auto split: if_splits)

lemma set_create_prop: "set (create_prop k v obj) = insert (k, v) (set obj)"
  by (simp add: create_prop_def set_insert_index)

lemma distinct_insert_index:
  "k \<notin> fst ` set obj \<Longrightarrow> distinct (map fst obj) \<Longrightarrow> distinct (map fst (insert_index k v obj))"
proof (induction obj)
  case Nil
  show ?case by simp
next
  case (Cons p obj)
  obtain k' v' where p: "p = (k', v')" by (cases p)
  from Cons.prems have nk: "k \<noteq> k'" and notin: "k \<notin> fst ` set obj"
    and d: "distinct (map fst obj)" and nk': "k' \<notin> fst ` set obj"
    by (auto simp: p)
  have ih: "distinct (map fst (insert_index k v obj))" using notin d by (rule Cons.IH)
  have "k' \<notin> fst ` set (insert_index k v obj)"
    using nk nk' by (auto simp: set_insert_index)
  with ih nk notin d nk' show ?case by (auto simp: p)
qed

lemma distinct_create_prop:
  "k \<notin> fst ` set obj \<Longrightarrow> distinct (map fst obj) \<Longrightarrow> distinct (map fst (create_prop k v obj))"
  by (auto simp: create_prop_def distinct_insert_index)

lemma map_of_create_prop:
  assumes "k \<notin> fst ` set obj" "distinct (map fst obj)"
  shows "map_of (create_prop k v obj) k' = (if k' = k then Some v else map_of obj k')"
proof -
  have d: "distinct (map fst (create_prop k v obj))" using assms by (rule distinct_create_prop)
  show ?thesis
  proof (cases "k' = k")
    case True
    have "(k, v) \<in> set (create_prop k v obj)" by (simp add: set_create_prop)
    with d have "map_of (create_prop k v obj) k = Some v" by simp
    with True show ?thesis by simp
  next
    case False
    show ?thesis
    proof (cases "map_of obj k'")
      case None
      then have "k' \<notin> fst ` set obj" by (simp add: map_of_eq_None_iff)
      with False have "k' \<notin> fst ` set (create_prop k v obj)"
        by (auto simp: set_create_prop)
      then have "map_of (create_prop k v obj) k' = None" by (simp add: map_of_eq_None_iff)
      with None False show ?thesis by simp
    next
      case (Some w)
      then have "(k', w) \<in> set obj" by (rule map_of_SomeD)
      then have "(k', w) \<in> set (create_prop k v obj)" by (simp add: set_create_prop)
      with d have "map_of (create_prop k v obj) k' = Some w" by simp
      with Some False show ?thesis by simp
    qed
  qed
qed

subsection \<open>One step\<close>

lemma group_step_cases:
  assumes "group_step gid acc e = Inr acc'"
  obtains (old) k es where "String_of (gid e) = Inr k" "map_of acc k = Some es"
      "acc' = push_to k e acc"
  | (new) k where "String_of (gid e) = Inr k" "map_of acc k = None"
      "k \<notin> set objectPrototypeKeys" "acc' = push_to k e (create_prop k [] acc)"
proof (cases "String_of (gid e)")
  case (Inl err)
  with assms show ?thesis by (simp add: group_step_def)
next
  case (Inr k)
  show ?thesis
  proof (cases "map_of acc k")
    case None
    with assms Inr have "k \<notin> set objectPrototypeKeys"
      and "acc' = push_to k e (create_prop k [] acc)"
      by (auto simp: group_step_def split: if_splits)
    with Inr None show ?thesis by (rule new)
  next
    case (Some es)
    with assms Inr have "acc' = push_to k e acc" by (simp add: group_step_def)
    with Inr Some show ?thesis by (rule old)
  qed
qed

lemma grouped_by_Nil: "grouped_by gid [] []"
  by (simp add: grouped_by_def)

lemma filter_none: "k \<notin> f ` set P \<Longrightarrow> filter (\<lambda>e. f e = k) P = []"
  by (induction P) auto

lemma group_step_grouped:
  assumes inv: "grouped_by gid P acc" and step: "group_step gid acc e = Inr acc'"
  shows "grouped_by gid (P @ [e]) acc'"
proof -
  let ?key = "\<lambda>e. String_of (gid e)"
  from inv have d: "distinct (map fst acc)"
    and m: "\<And>k. map_of acc k =
              (if Inr k \<in> ?key ` set P then Some (filter (\<lambda>e. ?key e = Inr k) P) else None)"
    by (simp_all add: grouped_by_def)
  from step show ?thesis
  proof (cases rule: group_step_cases)
    case (old k es)
    from old(2) m [of k] have kin: "Inr k \<in> ?key ` set P"
      by (auto split: if_splits)
    have d': "distinct (map fst acc')" using d by (simp add: old(3) map_fst_push_to)
    have m': "map_of acc' k' =
        (if Inr k' \<in> ?key ` set (P @ [e])
         then Some (filter (\<lambda>e. ?key e = Inr k') (P @ [e])) else None)" for k'
      using kin old(1) by (auto simp: old(3) map_of_push_to m)
    from d' m' show ?thesis unfolding grouped_by_def by blast
  next
    case (new k)
    from new(2) have notin: "k \<notin> fst ` set acc" by (simp add: map_of_eq_None_iff)
    from new(2) m [of k] have knew: "Inr k \<notin> ?key ` set P"
      by (auto split: if_splits)
    have d': "distinct (map fst acc')"
      using notin d by (simp add: new(4) map_fst_push_to distinct_create_prop)
    have m': "map_of acc' k' =
        (if Inr k' \<in> ?key ` set (P @ [e])
         then Some (filter (\<lambda>e. ?key e = Inr k') (P @ [e])) else None)" for k'
      using knew new(1)
      by (auto simp: new(4) map_of_push_to map_of_create_prop [OF notin d] m filter_none)
    from d' m' show ?thesis unfolding grouped_by_def by blast
  qed
qed

lemma reduce_groups_grouped:
  "grouped_by gid P acc \<Longrightarrow> reduce_groups gid acc es = Inr G \<Longrightarrow> grouped_by gid (P @ es) G"
proof (induction es arbitrary: P acc)
  case Nil
  then show ?case by simp
next
  case (Cons e es)
  from Cons.prems(2) obtain acc' where s: "group_step gid acc e = Inr acc'"
    and r: "reduce_groups gid acc' es = Inr G"
    by (auto split: sum.splits)
  have "grouped_by gid (P @ [e]) acc'" using Cons.prems(1) s by (rule group_step_grouped)
  from Cons.IH [OF this r] show ?case by simp
qed

subsection \<open>When the reduction throws\<close>

lemma keys_push_to: "fst ` set (push_to k e acc) = fst ` set acc"
proof -
  have "set (map fst (push_to k e acc)) = set (map fst acc)"
    by (simp only: map_fst_push_to)
  then show ?thesis by simp
qed

lemma group_step_keys:
  assumes "group_step gid acc e = Inr acc'"
  shows "\<exists>k. String_of (gid e) = Inr k \<and> fst ` set acc' = insert k (fst ` set acc)"
  using assms
proof (cases rule: group_step_cases)
  case (old k es)
  from old(2) have "(k, es) \<in> set acc" by (rule map_of_SomeD)
  then have "k \<in> fst ` set acc" by force
  then have "fst ` set acc' = insert k (fst ` set acc)" by (auto simp: old(3) keys_push_to)
  with old(1) show ?thesis by blast
next
  case (new k)
  have "fst ` set acc' = insert k (fst ` set acc)"
    by (simp add: new(4) keys_push_to set_create_prop)
  with new(1) show ?thesis by blast
qed

text \<open>
  An entry files without a throw when its id converts to a key that names no member of
  \<open>Object.prototype\<close>, or that the accumulator already holds as an own property (which
  the reduction never lets happen for such a name).
\<close>

lemma group_step_error:
  "(\<exists>err. group_step gid acc e = Inl err) \<longleftrightarrow>
     \<not> (\<exists>k. String_of (gid e) = Inr k
            \<and> (k \<in> fst ` set acc \<or> k \<notin> set objectPrototypeKeys))"
proof (cases "String_of (gid e)")
  case (Inl err)
  then show ?thesis by (simp add: group_step_def)
next
  case (Inr k)
  show ?thesis
  proof (cases "map_of acc k")
    case None
    then have "k \<notin> fst ` set acc" by (simp add: map_of_eq_None_iff)
    with None Inr show ?thesis by (simp add: group_step_def)
  next
    case (Some es)
    then have "(k, es) \<in> set acc" by (rule map_of_SomeD)
    then have "k \<in> fst ` set acc" by force
    with Some Inr show ?thesis by (simp add: group_step_def)
  qed
qed

lemma reduce_groups_error:
  "fst ` set acc \<inter> set objectPrototypeKeys = {} \<Longrightarrow>
   (\<exists>err. reduce_groups gid acc es = Inl err) \<longleftrightarrow>
     (\<exists>e \<in> set es. \<not> (\<exists>k. String_of (gid e) = Inr k \<and> k \<notin> set objectPrototypeKeys))"
proof (induction es arbitrary: acc)
  case Nil
  show ?case by simp
next
  case (Cons e es)
  have bad_iff: "(\<exists>err. group_step gid acc e = Inl err) \<longleftrightarrow>
      \<not> (\<exists>k. String_of (gid e) = Inr k \<and> k \<notin> set objectPrototypeKeys)"
    using Cons.prems unfolding group_step_error by blast
  show ?case
  proof (cases "group_step gid acc e")
    case (Inl err)
    with bad_iff have "\<not> (\<exists>k. String_of (gid e) = Inr k \<and> k \<notin> set objectPrototypeKeys)"
      by blast
    with Inl show ?thesis by simp
  next
    case (Inr acc')
    with bad_iff have good: "\<exists>k. String_of (gid e) = Inr k \<and> k \<notin> set objectPrototypeKeys"
      by auto
    from group_step_keys [OF Inr] good obtain k
      where k: "k \<notin> set objectPrototypeKeys" "fst ` set acc' = insert k (fst ` set acc)"
      by auto
    have "fst ` set acc' \<inter> set objectPrototypeKeys = {}"
      unfolding k(2) using k(1) Cons.prems by blast
    from Cons.IH [OF this] good Inr show ?thesis by auto
  qed
qed

subsection \<open>Nothing is lost or duplicated\<close>

lemma mset_push_to:
  "k \<in> fst ` set acc \<Longrightarrow>
   mset (concat (map snd (push_to k e acc))) = add_mset e (mset (concat (map snd acc)))"
  by (induction acc) force+

lemma mset_insert_index_empty:
  "mset (concat (map snd (insert_index k [] obj))) = mset (concat (map snd obj))"
  by (induction obj) auto

lemma mset_create_prop_empty:
  "mset (concat (map snd (create_prop k [] obj))) = mset (concat (map snd obj))"
  by (simp add: create_prop_def mset_insert_index_empty)

lemma group_step_mset:
  assumes "group_step gid acc e = Inr acc'"
  shows "mset (concat (map snd acc')) = add_mset e (mset (concat (map snd acc)))"
  using assms
proof (cases rule: group_step_cases)
  case (old k es)
  from old(2) have "(k, es) \<in> set acc" by (rule map_of_SomeD)
  then have "k \<in> fst ` set acc" by force
  then show ?thesis by (simp add: old(3) mset_push_to)
next
  case (new k)
  have "k \<in> fst ` set (create_prop k [] acc)"
    by (force simp: set_create_prop)
  then show ?thesis by (simp add: new(4) mset_push_to mset_create_prop_empty)
qed

lemma reduce_groups_mset:
  "reduce_groups gid acc es = Inr G \<Longrightarrow>
   mset (concat (map snd G)) = mset (concat (map snd acc)) + mset es"
proof (induction es arbitrary: acc)
  case Nil
  then show ?case by simp
next
  case (Cons e es)
  from Cons.prems obtain acc' where s: "group_step gid acc e = Inr acc'"
    and r: "reduce_groups gid acc' es = Inr G"
    by (auto split: sum.splits)
  from Cons.IH [OF r] group_step_mset [OF s] show ?case by simp
qed

subsection \<open>The order of the keys\<close>

lemma array_index_canonical: "is_array_index s \<Longrightarrow> string_of_nat (digits_value s) = s"
  by (simp add: is_array_index_def)

lemma array_index_inj:
  assumes "is_array_index a" "is_array_index b" "digits_value a = digits_value b"
  shows "a = b"
proof -
  have "a = string_of_nat (digits_value a)" using assms(1) by (simp add: array_index_canonical)
  also have "\<dots> = string_of_nat (digits_value b)" using assms(3) by simp
  also have "\<dots> = b" using assms(2) by (simp add: array_index_canonical)
  finally show ?thesis .
qed

lemma insert_index_split:
  assumes "map fst obj = a @ b"
    and "\<forall>x \<in> set a. is_array_index x" and "\<forall>x \<in> set b. \<not> is_array_index x"
    and "sorted_wrt (<) (map digits_value a)"
    and "is_array_index k" and "k \<notin> set a"
  shows "\<exists>a'. map fst (insert_index k v obj) = a' @ b \<and> set a' = insert k (set a)
           \<and> sorted_wrt (<) (map digits_value a')"
  using assms
proof (induction a arbitrary: obj)
  case Nil
  show ?case
  proof (cases obj)
    case Nil
    with Nil.prems show ?thesis by simp
  next
    case (Cons p rest)
    obtain k' v' where p: "p = (k', v')" by (cases p)
    from Nil.prems(1) Cons p have "k' \<in> set b" by auto
    with Nil.prems(3) have "\<not> is_array_index k'" by blast
    then have "insert_index k v obj = (k, v) # obj" by (simp add: Cons p)
    with Nil.prems(1) show ?thesis by simp
  qed
next
  case (Cons x a2)
  from Cons.prems(1) obtain v' rest where obj: "obj = (x, v') # rest"
    and rest: "map fst rest = a2 @ b"
    by (cases obj) auto
  from Cons.prems have ix: "is_array_index x" and kx: "k \<noteq> x" and ka2: "k \<notin> set a2"
    and ia2: "\<forall>y \<in> set a2. is_array_index y"
    and sx: "\<forall>y \<in> set a2. digits_value x < digits_value y"
    and sa2: "sorted_wrt (<) (map digits_value a2)"
    by (auto simp: sorted_wrt_map)
  have neq: "digits_value k \<noteq> digits_value x"
    using array_index_inj [OF Cons.prems(5) ix] kx by blast
  show ?case
  proof (cases "digits_value x < digits_value k")
    case True
    from Cons.IH [OF rest ia2 Cons.prems(3) sa2 Cons.prems(5) ka2]
    obtain a' where a': "map fst (insert_index k v rest) = a' @ b"
      "set a' = insert k (set a2)" "sorted_wrt (<) (map digits_value a')"
      by blast
    have "map fst (insert_index k v obj) = (x # a') @ b"
      using True ix a'(1) by (simp add: obj)
    moreover have "set (x # a') = insert k (set (x # a2))" using a'(2) by auto
    moreover have "sorted_wrt (<) (map digits_value (x # a'))"
      using a'(2,3) sx True by (auto simp: sorted_wrt_map)
    ultimately show ?thesis by blast
  next
    case False
    with neq have lt: "digits_value k < digits_value x" by simp
    have "map fst (insert_index k v obj) = (k # x # a2) @ b"
      using False rest by (simp add: obj)
    moreover have "set (k # x # a2) = insert k (set (x # a2))" by simp
    moreover have "sorted_wrt (<) (map digits_value (k # x # a2))"
      using lt sx sa2 by (auto simp: sorted_wrt_map)
    ultimately show ?thesis by blast
  qed
qed

lemma index_first_create_prop:
  assumes "index_first (map fst obj)" "k \<notin> fst ` set obj"
  shows "index_first (map fst (create_prop k v obj))"
proof -
  from assms(1) obtain a b where ab: "map fst obj = a @ b"
    and ia: "\<forall>x \<in> set a. is_array_index x" and ib: "\<forall>x \<in> set b. \<not> is_array_index x"
    and sa: "sorted_wrt (<) (map digits_value a)"
    unfolding index_first_def by blast
  show ?thesis
  proof (cases "is_array_index k")
    case True
    have "set a \<subseteq> set (map fst obj)" by (simp add: ab)
    with assms(2) have ka: "k \<notin> set a" by auto
    from insert_index_split [OF ab ia ib sa True ka, of v]
    obtain a' where a': "map fst (insert_index k v obj) = a' @ b"
      "set a' = insert k (set a)" "sorted_wrt (<) (map digits_value a')"
      by blast
    have ia': "\<forall>x \<in> set a'. is_array_index x" using a'(2) ia True by auto
    have "map fst (create_prop k v obj) = a' @ b" using True a'(1) by (simp add: create_prop_def)
    with ia' ib a'(3) show ?thesis unfolding index_first_def by blast
  next
    case False
    have "map fst (create_prop k v obj) = a @ (b @ [k])"
      using False by (simp add: create_prop_def ab)
    moreover have "\<forall>x \<in> set (b @ [k]). \<not> is_array_index x" using ib False by simp
    ultimately show ?thesis using ia sa unfolding index_first_def by blast
  qed
qed

lemma group_step_index_first:
  assumes "group_step gid acc e = Inr acc'" "index_first (map fst acc)"
  shows "index_first (map fst acc')"
  using assms(1)
proof (cases rule: group_step_cases)
  case (old k es)
  with assms(2) show ?thesis by (simp add: map_fst_push_to)
next
  case (new k)
  from new(2) have "k \<notin> fst ` set acc" by (simp add: map_of_eq_None_iff)
  with assms(2) show ?thesis by (simp add: new(4) map_fst_push_to index_first_create_prop)
qed

lemma reduce_groups_index_first:
  "reduce_groups gid acc es = Inr G \<Longrightarrow> index_first (map fst acc) \<Longrightarrow> index_first (map fst G)"
proof (induction es arbitrary: acc)
  case Nil
  then show ?case by simp
next
  case (Cons e es)
  from Cons.prems(1) obtain acc' where s: "group_step gid acc e = Inr acc'"
    and r: "reduce_groups gid acc' es = Inr G"
    by (auto split: sum.splits)
  from Cons.IH [OF r group_step_index_first [OF s Cons.prems(2)]] show ?case .
qed

lemma index_first_filters:
  assumes "index_first ks"
  shows "ks = filter is_array_index ks @ filter (\<lambda>k. \<not> is_array_index k) ks"
    and "sorted_wrt (<) (map digits_value (filter is_array_index ks))"
proof -
  from assms obtain a b where ab: "ks = a @ b"
    and ia: "\<forall>x \<in> set a. is_array_index x" and ib: "\<forall>x \<in> set b. \<not> is_array_index x"
    and sa: "sorted_wrt (<) (map digits_value a)"
    unfolding index_first_def by blast
  have fa: "filter is_array_index ks = a" using ia ib by (simp add: ab filter_empty_conv)
  have fb: "filter (\<lambda>k. \<not> is_array_index k) ks = b"
    using ia ib by (simp add: ab filter_empty_conv)
  show "ks = filter is_array_index ks @ filter (\<lambda>k. \<not> is_array_index k) ks"
    unfolding fa fb by (rule ab)
  show "sorted_wrt (<) (map digits_value (filter is_array_index ks))"
    unfolding fa by (rule sa)
qed

subsection \<open>Other keys in the order of first occurrence\<close>

lemma set_first_seen: "set (first_seen xs) = set xs"
  by (induction xs) auto

lemma first_seen_snoc:
  "first_seen (xs @ [k]) = first_seen xs @ (if k \<in> set xs then [] else [k])"
  by (induction xs) auto

lemma filter_keys_insert_index:
  "\<not> Q k \<Longrightarrow> filter Q (map fst (insert_index k v obj)) = filter Q (map fst obj)"
  by (induction obj) auto

lemma filter_keys_create_prop:
  "filter (\<lambda>k. \<not> is_array_index k) (map fst (create_prop k v obj)) =
     filter (\<lambda>k. \<not> is_array_index k) (map fst obj) @ (if is_array_index k then [] else [k])"
  by (simp add: create_prop_def filter_keys_insert_index)

lemma group_step_other_keys:
  assumes step: "group_step gid acc e = Inr acc'"
    and key: "String_of (gid e) = Inr k"
    and keys: "set (map fst acc) = set ks"
    and inv: "filter (\<lambda>k. \<not> is_array_index k) (map fst acc)
                = first_seen (filter (\<lambda>k. \<not> is_array_index k) ks)"
  shows "filter (\<lambda>k. \<not> is_array_index k) (map fst acc')
                = first_seen (filter (\<lambda>k. \<not> is_array_index k) (ks @ [k]))"
  using step
proof (cases rule: group_step_cases)
  case (old k' es)
  with key have kk: "k' = k" by simp
  from old(2) have "(k', es) \<in> set acc" by (rule map_of_SomeD)
  then have "k' \<in> set (map fst acc)" by force
  with keys kk have "k \<in> set ks" by simp
  then show ?thesis by (simp add: old(3) map_fst_push_to inv first_seen_snoc)
next
  case (new k')
  with key have kk: "k' = k" by simp
  from new(2) have "k' \<notin> set (map fst acc)" by (simp add: map_of_eq_None_iff)
  with keys kk have "k \<notin> set ks" by simp
  then show ?thesis
    by (simp add: new(4) kk map_fst_push_to filter_keys_create_prop inv first_seen_snoc)
qed

lemma reduce_groups_other_keys:
  "reduce_groups gid acc es = Inr G \<Longrightarrow>
   map (\<lambda>e. String_of (gid e)) es = map Inr keys \<Longrightarrow>
   set (map fst acc) = set ks \<Longrightarrow>
   filter (\<lambda>k. \<not> is_array_index k) (map fst acc)
     = first_seen (filter (\<lambda>k. \<not> is_array_index k) ks) \<Longrightarrow>
   filter (\<lambda>k. \<not> is_array_index k) (map fst G)
     = first_seen (filter (\<lambda>k. \<not> is_array_index k) (ks @ keys))"
proof (induction es arbitrary: acc ks keys)
  case Nil
  then show ?case by simp
next
  case (Cons e es)
  from Cons.prems(2) obtain k keys' where keys: "keys = k # keys'"
    and k: "String_of (gid e) = Inr k"
    and rest: "map (\<lambda>e. String_of (gid e)) es = map Inr keys'"
    by (cases keys) auto
  from Cons.prems(1) obtain acc' where s: "group_step gid acc e = Inr acc'"
    and r: "reduce_groups gid acc' es = Inr G"
    by (auto split: sum.splits)
  have k': "set (map fst acc') = set (ks @ [k])"
    using group_step_keys [OF s] k Cons.prems(3) by auto
  have i': "filter (\<lambda>k. \<not> is_array_index k) (map fst acc')
      = first_seen (filter (\<lambda>k. \<not> is_array_index k) (ks @ [k]))"
    using s k Cons.prems(3,4) by (rule group_step_other_keys)
  from Cons.IH [OF r rest k' i'] show ?case by (simp add: keys)
qed

lemma all_Inr_map:
  "\<forall>x \<in> set xs. \<exists>k. f x = Inr k \<and> Q k \<Longrightarrow>
   \<exists>ks. map f xs = map Inr ks \<and> (\<forall>k \<in> set ks. Q k)"
proof (induction xs)
  case Nil
  show ?case by simp
next
  case (Cons x xs)
  from Cons.prems obtain k where k: "f x = Inr k" "Q k" by auto
  from Cons.prems have "\<forall>x \<in> set xs. \<exists>k. f x = Inr k \<and> Q k" by simp
  from Cons.IH [OF this] obtain ks where ks: "map f xs = map Inr ks" "\<forall>k \<in> set ks. Q k"
    by blast
  have "map f (x # xs) = map Inr (k # ks)" using k(1) ks(1) by simp
  moreover have "\<forall>k' \<in> set (k # ks). Q k'" using k(2) ks(2) by simp
  ultimately show ?case by blast
qed

lemma not_index_examples:
  "\<not> is_array_index ''X''" "\<not> is_array_index ''Y''" "\<not> is_array_index ''ungrouped''"
  "\<not> is_array_index ''b''"
  by (simp_all add: is_array_index_def is_digit_def)

lemma index_example: "is_array_index ''1''" "digits_value ''1'' = 1"
  by (simp_all add: is_array_index_def is_digit_def digits_value_def digit_value_def
      string_of_nat_digit)

lemma not_proto_examples:
  "''X'' \<notin> set objectPrototypeKeys" "''Y'' \<notin> set objectPrototypeKeys"
  "''ungrouped'' \<notin> set objectPrototypeKeys"
  "''b'' \<notin> set objectPrototypeKeys" "''1'' \<notin> set objectPrototypeKeys"
  "''tf_req_id'' \<notin> set objectPrototypeKeys" "''tf_http_trans_id'' \<notin> set objectPrototypeKeys"
  by (simp_all add: objectPrototypeKeys_def)

lemma groupEntries_example:
  "groupEntries example_entries =
     Inr [(''X'', [mk_entry [(''id'', JNum ''1''), (''tf_req_id'', JStr ''X'')],
                   mk_entry [(''id'', JNum ''2''), (''tf_req_id'', JStr ''X'')],
                   mk_entry [(''id'', JNum ''3''), (''tf_req_id'', JStr ''X'')]]),
          (''Y'', [mk_entry [(''id'', JNum ''4''), (''tf_http_trans_id'', JStr ''Y'')],
                   mk_entry [(''id'', JNum ''5''), (''tf_http_trans_id'', JStr ''Y'')]]),
          (''ungrouped'', [mk_entry [(''id'', JNum ''6'')]])]"
  by (simp add: example_entries_def groupEntries_def group_step_def groupId_def js_or_def
      entry_prop_def get_prop_def mk_entry_def create_prop_def not_index_examples
      not_proto_examples)

lemma groupEntries_plain_example:
  "groupEntries_plain example_entries =
     Inr [(''X'', [mk_entry [(''id'', JNum ''1''), (''tf_req_id'', JStr ''X'')],
                   mk_entry [(''id'', JNum ''2''), (''tf_req_id'', JStr ''X'')],
                   mk_entry [(''id'', JNum ''3''), (''tf_req_id'', JStr ''X'')]]),
          (''ungrouped'', [mk_entry [(''id'', JNum ''4''), (''tf_http_trans_id'', JStr ''Y'')],
                   mk_entry [(''id'', JNum ''5''), (''tf_http_trans_id'', JStr ''Y'')],
                   mk_entry [(''id'', JNum ''6'')]])]"
  by (simp add: example_entries_def groupEntries_plain_def group_step_def groupId_plain_def
      js_or_def entry_prop_def get_prop_def mk_entry_def create_prop_def not_index_examples
      not_proto_examples)

lemma absent_or_empty_falsy: "absent_or_empty v \<Longrightarrow> \<not> truthy v"
  by (auto simp: absent_or_empty_def)

lemma groupKey_req:
  "entry_prop e ''tf_req_id'' = JStr s \<Longrightarrow> s \<noteq> [] \<Longrightarrow> groupKey e = Inr s"
  by (simp add: groupKey_def groupId_def js_or_def)

lemma groupKey_trans:
  "absent_or_empty (entry_prop e ''tf_req_id'') \<Longrightarrow>
   entry_prop e ''tf_http_trans_id'' = JStr s \<Longrightarrow> s \<noteq> [] \<Longrightarrow> groupKey e = Inr s"
  by (simp add: groupKey_def groupId_def js_or_def absent_or_empty_falsy)

lemma groupKey_ungrouped:
  "absent_or_empty (entry_prop e ''tf_req_id'') \<Longrightarrow>
   absent_or_empty (entry_prop e ''tf_http_trans_id'') \<Longrightarrow> groupKey e = Inr ''ungrouped''"
  by (simp add: groupKey_def groupId_def js_or_def absent_or_empty_falsy)

lemma groupKey_plain_req:
  "entry_prop e ''tf_req_id'' = JStr s \<Longrightarrow> s \<noteq> [] \<Longrightarrow> groupKey_plain e = Inr s"
  by (simp add: groupKey_plain_def groupId_plain_def js_or_def)

lemma groupKey_plain_ungrouped:
  "absent_or_empty (entry_prop e ''tf_req_id'') \<Longrightarrow> groupKey_plain e = Inr ''ungrouped''"
  by (simp add: groupKey_plain_def groupId_plain_def js_or_def absent_or_empty_falsy)

text \<open>
  C2 as stated, on the grouping of EnhancedLogViewer.jsx, one of the two places the claim
  names: that function reads \<open>entry.tf_req_id || 'ungrouped'\<close> and never looks at the
  transport identifier, so the example yields two groups, \<open>X\<close> with 3 entries and
  \<open>ungrouped\<close> with 3.
\<close>

theorem C2_counterexample:
  "map_sum id (map (\<lambda>g. (fst g, length (snd g)))) (groupEntries_plain example_entries)
     = Inr [(''X'', 3), (''ungrouped'', 3)]
   \<and> map_sum id (map (\<lambda>g. (fst g, length (snd g)))) (groupEntries_plain example_entries)
     \<noteq> Inr [(''X'', 3), (''Y'', 2), (''ungrouped'', 1)]"
  by (simp add: groupEntries_plain_example)

text \<open>
  C2, amended. In the filtering viewer the group key of an entry is its \<open>tf_req_id\<close> if
  present and non-empty, else its \<open>tf_http_trans_id\<close> if present and non-empty, else
  \<open>ungrouped\<close>, and the example yields exactly the groups \<open>X\<close> (3 entries), \<open>Y\<close> (2)
  and \<open>ungrouped\<close> (1). In the older viewer of EnhancedLogViewer.jsx the key is the
  \<open>tf_req_id\<close> if present and non-empty, else \<open>ungrouped\<close>, and the example yields
  \<open>X\<close> (3) and \<open>ungrouped\<close> (3).
\<close>

theorem C2_group_key_resolution:
  "(\<forall>e s. entry_prop e ''tf_req_id'' = JStr s \<and> s \<noteq> [] \<longrightarrow> groupKey e = Inr s)
   \<and> (\<forall>e s. absent_or_empty (entry_prop e ''tf_req_id'')
            \<and> entry_prop e ''tf_http_trans_id'' = JStr s \<and> s \<noteq> [] \<longrightarrow> groupKey e = Inr s)
   \<and> (\<forall>e. absent_or_empty (entry_prop e ''tf_req_id'')
            \<and> absent_or_empty (entry_prop e ''tf_http_trans_id'')
            \<longrightarrow> groupKey e = Inr ''ungrouped'')
   \<and> map_sum id (map (\<lambda>g. (fst g, length (snd g)))) (groupEntries example_entries)
        = Inr [(''X'', 3), (''Y'', 2), (''ungrouped'', 1)]
   \<and> (\<forall>e s. entry_prop e ''tf_req_id'' = JStr s \<and> s \<noteq> [] \<longrightarrow> groupKey_plain e = Inr s)
   \<and> (\<forall>e. absent_or_empty (entry_prop e ''tf_req_id'')
            \<longrightarrow> groupKey_plain e = Inr ''ungrouped'')
   \<and> map_sum id (map (\<lambda>g. (fst g, length (snd g)))) (groupEntries_plain example_entries)
        = Inr [(''X'', 3), (''ungrouped'', 3)]"
proof -
  have a: "map_sum id (map (\<lambda>g. (fst g, length (snd g)))) (groupEntries example_entries)
        = Inr [(''X'', 3), (''Y'', 2), (''ungrouped'', 1)]"
    by (simp add: groupEntries_example)
  have b: "map_sum id (map (\<lambda>g. (fst g, length (snd g)))) (groupEntries_plain example_entries)
        = Inr [(''X'', 3), (''ungrouped'', 3)]"
    by (simp add: groupEntries_plain_example)
  from a b groupKey_req groupKey_trans groupKey_ungrouped groupKey_plain_req
    groupKey_plain_ungrouped
  show ?thesis by blast
qed

theorem C2_witness:
  "groupKey (mk_entry [(''id'', JNum ''4''), (''tf_req_id'', JStr []), (''tf_http_trans_id'', JStr ''Y'')])
     = Inr ''Y''
   \<and> groupKey_plain (mk_entry [(''id'', JNum ''4''), (''tf_req_id'', JStr []), (''tf_http_trans_id'', JStr ''Y'')])
     = Inr ''ungrouped''
   \<and> groupKey (mk_entry [(''id'', JNum ''1''), (''tf_req_id'', JStr ''X'')]) = Inr ''X''
   \<and> groupKey (mk_entry [(''id'', JNum ''6'')]) = Inr ''ungrouped''"
proof -
  let ?e = "mk_entry [(''id'', JNum ''4''), (''tf_req_id'', JStr []), (''tf_http_trans_id'', JStr ''Y'')]"
  let ?x = "mk_entry [(''id'', JNum ''1''), (''tf_req_id'', JStr ''X'')]"
  let ?u = "mk_entry [(''id'', JNum ''6'')]"
  have r: "absent_or_empty (entry_prop ?e ''tf_req_id'')"
    by (simp add: absent_or_empty_def entry_prop_def get_prop_def mk_entry_def)
  have t: "entry_prop ?e ''tf_http_trans_id'' = JStr ''Y'' \<and> ''Y'' \<noteq> []"
    by (simp add: entry_prop_def get_prop_def mk_entry_def)
  have x: "entry_prop ?x ''tf_req_id'' = JStr ''X'' \<and> ''X'' \<noteq> []"
    by (simp add: entry_prop_def get_prop_def mk_entry_def)
  have u: "absent_or_empty (entry_prop ?u ''tf_req_id'')
         \<and> absent_or_empty (entry_prop ?u ''tf_http_trans_id'')"
    by (simp add: absent_or_empty_def entry_prop_def get_prop_def mk_entry_def
        objectPrototypeKeys_def)
  from C2_group_key_resolution r t x u show ?thesis by blast
qed

lemma groupEntries_total:
  assumes "\<forall>e \<in> set E. \<exists>k. groupKey e = Inr k \<and> k \<notin> set objectPrototypeKeys"
  shows "\<exists>G. groupEntries E = Inr G"
proof (cases "groupEntries E")
  case (Inl err)
  then have "\<exists>err. reduce_groups groupId [] E = Inl err" by (auto simp: groupEntries_def)
  then have "\<exists>e \<in> set E. \<not> (\<exists>k. String_of (groupId e) = Inr k \<and> k \<notin> set objectPrototypeKeys)"
    by (simp add: reduce_groups_error)
  with assms show ?thesis by (auto simp: groupKey_def)
next
  case (Inr G)
  then show ?thesis by blast
qed

text \<open>
  Grouping throws exactly when some entry's id does not convert to a key, or converts to
  the name of a member of \<open>Object.prototype\<close>.
\<close>

lemma groupEntries_error:
  "groupEntries E = Inl TypeError \<longleftrightarrow>
     (\<exists>e \<in> set E. \<not> (\<exists>k. groupKey e = Inr k \<and> k \<notin> set objectPrototypeKeys))"
proof -
  have "(\<exists>err. reduce_groups groupId [] E = Inl err)
        \<longleftrightarrow> (\<exists>e \<in> set E. \<not> (\<exists>k. String_of (groupId e) = Inr k \<and> k \<notin> set objectPrototypeKeys))"
    by (rule reduce_groups_error) simp
  moreover have "(\<exists>err. reduce_groups groupId [] E = Inl err)
        \<longleftrightarrow> reduce_groups groupId [] E = Inl TypeError"
    by (metis error.exhaust)
  ultimately show ?thesis by (simp add: groupEntries_def groupKey_def)
qed

lemma subseq_filter_self: "subseq (filter Q xs) xs"
  by (induction xs) auto

lemma groupEntries_partition:
  assumes G: "groupEntries E = Inr G"
  shows "distinct (map fst G)"
    and "Inr ` set (map fst G) = groupKey ` set E"
    and "\<forall>g \<in> set G. snd g = filter (\<lambda>e. groupKey e = Inr (fst g)) E \<and> subseq (snd g) E"
    and "\<forall>e \<in> set E. \<exists>!g. g \<in> set G \<and> e \<in> set (snd g)"
    and "mset (concat (map snd G)) = mset E"
    and "sum_list (map (\<lambda>g. length (snd g)) G) = length E"
proof -
  from G have r: "reduce_groups groupId [] E = Inr G" by (simp add: groupEntries_def)
  have inv: "grouped_by groupId E G"
    using reduce_groups_grouped [OF grouped_by_Nil r] by simp
  then show d: "distinct (map fst G)" by (simp add: grouped_by_def)
  from inv have m: "\<And>k. map_of G k =
      (if Inr k \<in> groupKey ` set E then Some (filter (\<lambda>e. groupKey e = Inr k) E) else None)"
    unfolding grouped_by_def groupKey_def [abs_def] by blast
  have conv: "\<forall>e \<in> set E. \<exists>k. groupKey e = Inr k \<and> k \<notin> set objectPrototypeKeys"
  proof (rule ccontr)
    assume "\<not> ?thesis"
    then have "groupEntries E = Inl TypeError" by (simp add: groupEntries_error)
    with G show False by simp
  qed
  have keys: "Inr ` fst ` set G = groupKey ` set E"
  proof -
    have "fst ` set G = dom (map_of G)" by (simp add: dom_map_of_conv_image_fst)
    also have "\<dots> = {k. Inr k \<in> groupKey ` set E}" by (auto simp: dom_def m)
    finally have fk: "fst ` set G = {k. Inr k \<in> groupKey ` set E}" .
    show ?thesis
    proof (intro equalityI subsetI)
      fix x :: "error + string" assume "x \<in> Inr ` fst ` set G"
      then obtain k where k: "x = Inr k" "k \<in> fst ` set G" by blast
      from k(2) have "Inr k \<in> groupKey ` set E" unfolding fk by simp
      with k(1) show "x \<in> groupKey ` set E" by simp
    next
      fix x :: "error + string" assume "x \<in> groupKey ` set E"
      then obtain e where e: "e \<in> set E" "x = groupKey e" by blast
      from conv e(1) obtain k where k: "groupKey e = Inr k" by blast
      from e k have "Inr k \<in> groupKey ` set E" by (metis imageI)
      then have "k \<in> fst ` set G" unfolding fk by simp
      with e(2) k show "x \<in> Inr ` fst ` set G" by simp
    qed
  qed
  then show "Inr ` set (map fst G) = groupKey ` set E" by simp
  have member: "snd g = filter (\<lambda>e. groupKey e = Inr (fst g)) E" if "g \<in> set G" for g
  proof -
    from that have "(fst g, snd g) \<in> set G" by simp
    with d have "map_of G (fst g) = Some (snd g)" by (rule map_of_is_SomeI)
    then show ?thesis by (simp add: m split: if_splits)
  qed
  then show "\<forall>g \<in> set G. snd g = filter (\<lambda>e. groupKey e = Inr (fst g)) E \<and> subseq (snd g) E"
    by (simp add: subseq_filter_self)
  show "\<forall>e \<in> set E. \<exists>!g. g \<in> set G \<and> e \<in> set (snd g)"
  proof
    fix e assume e: "e \<in> set E"
    then have "groupKey e \<in> Inr ` fst ` set G" by (simp add: keys)
    then obtain g where g: "g \<in> set G" "groupKey e = Inr (fst g)" by force
    have ein: "e \<in> set (snd g)" using e g by (simp add: member)
    have uniq: "g' = g" if g': "g' \<in> set G" "e \<in> set (snd g')" for g'
    proof -
      from g' have "groupKey e = Inr (fst g')" by (simp add: member)
      with g(2) have ff: "fst g' = fst g" by simp
      moreover have "snd g' = snd g" using g'(1) g(1) ff by (simp add: member)
      ultimately show ?thesis by (simp add: prod_eq_iff)
    qed
    from g(1) ein uniq show "\<exists>!g. g \<in> set G \<and> e \<in> set (snd g)" by blast
  qed
  show ms: "mset (concat (map snd G)) = mset E"
    using reduce_groups_mset [OF r] by simp
  have "length (concat (map snd G)) = length E"
    using ms by (metis size_mset)
  then show "sum_list (map (\<lambda>g. length (snd g)) G) = length E"
    by (simp add: length_concat comp_def)
qed

lemma groupEntries_order:
  assumes G: "groupEntries E = Inr G" and ks: "map groupKey E = map Inr ks"
  shows "map fst G = filter is_array_index (map fst G) @ filter (\<lambda>k. \<not> is_array_index k) (map fst G)"
    and "sorted_wrt (<) (map digits_value (filter is_array_index (map fst G)))"
    and "filter (\<lambda>k. \<not> is_array_index k) (map fst G)
           = first_seen (filter (\<lambda>k. \<not> is_array_index k) ks)"
proof -
  from G have r: "reduce_groups groupId [] E = Inr G" by (simp add: groupEntries_def)
  have i0: "index_first (map fst ([] :: groups))" by (simp add: index_first_def)
  have idx: "index_first (map fst G)" using r i0 by (rule reduce_groups_index_first)
  from index_first_filters [OF idx]
  show "map fst G = filter is_array_index (map fst G) @ filter (\<lambda>k. \<not> is_array_index k) (map fst G)"
    and "sorted_wrt (<) (map digits_value (filter is_array_index (map fst G)))"
    by blast+
  have ks': "map (\<lambda>e. String_of (groupId e)) E = map Inr ks"
    using ks by (simp add: groupKey_def [abs_def])
  have "filter (\<lambda>k. \<not> is_array_index k) (map fst G)
      = first_seen (filter (\<lambda>k. \<not> is_array_index k) ([] @ ks))"
    using r ks' by (rule reduce_groups_other_keys) simp_all
  then show "filter (\<lambda>k. \<not> is_array_index k) (map fst G)
           = first_seen (filter (\<lambda>k. \<not> is_array_index k) ks)"
    by simp
qed

text \<open>
  C3 as stated: groups appear in the order their key was first met. The accumulator is a
  plain object, and JavaScript enumerates an object's array-index keys first: for an entry
  with key \<open>b\<close> followed by one with key \<open>1\<close> the groups come out as \<open>1\<close>, \<open>b\<close>,
  while the order of first occurrence is \<open>b\<close>, \<open>1\<close>.
\<close>

theorem C3_counterexample:
  "map_sum id (map fst)
     (groupEntries [mk_entry [(''tf_req_id'', JStr ''b'')], mk_entry [(''tf_req_id'', JStr ''1'')]])
     = Inr [''1'', ''b'']
   \<and> first_seen (map groupKey
        [mk_entry [(''tf_req_id'', JStr ''b'')], mk_entry [(''tf_req_id'', JStr ''1'')]])
     = [Inr ''b'', Inr ''1'']"
  by (simp add: groupEntries_def group_step_def groupKey_def groupId_def js_or_def entry_prop_def
      get_prop_def mk_entry_def create_prop_def not_index_examples index_example
      not_proto_examples)

text \<open>
  C3, amended. For every entry sequence \<open>E\<close> in which every group id converts to a key
  and no key names a member of \<open>Object.prototype\<close>, grouping returns and partitions
  \<open>E\<close> exactly: the keys of the groups are distinct and are the keys \<open>ks\<close> met in \<open>E\<close>,
  every entry of \<open>E\<close> is in exactly one group, the groups together hold the entries of
  \<open>E\<close> with their multiplicities (so the counts add up to the length of \<open>E\<close>), and each
  group holds the entries of its key in their order in \<open>E\<close>, a subsequence of \<open>E\<close>. The
  groups appear with the array-index keys first, in ascending numeric order, and after
  them the other keys in the order they were first met; when no key is an array index,
  that is the order of first occurrence throughout.
\<close>

theorem C3_grouping_partition_and_order:
  assumes ok: "\<forall>e \<in> set E. \<exists>k. groupKey e = Inr k \<and> k \<notin> set objectPrototypeKeys"
  shows "\<exists>G ks. groupEntries E = Inr G \<and> map groupKey E = map Inr ks
     \<and> distinct (map fst G)
     \<and> set (map fst G) = set ks
     \<and> (\<forall>g \<in> set G. snd g = filter (\<lambda>e. groupKey e = Inr (fst g)) E \<and> subseq (snd g) E)
     \<and> (\<forall>e \<in> set E. \<exists>!g. g \<in> set G \<and> e \<in> set (snd g))
     \<and> mset (concat (map snd G)) = mset E
     \<and> sum_list (map (\<lambda>g. length (snd g)) G) = length E
     \<and> map fst G = filter is_array_index (map fst G)
                    @ filter (\<lambda>k. \<not> is_array_index k) (map fst G)
     \<and> sorted_wrt (<) (map digits_value (filter is_array_index (map fst G)))
     \<and> filter (\<lambda>k. \<not> is_array_index k) (map fst G)
          = first_seen (filter (\<lambda>k. \<not> is_array_index k) ks)
     \<and> ((\<forall>k \<in> set ks. \<not> is_array_index k) \<longrightarrow> map fst G = first_seen ks)"
proof -
  from groupEntries_total [OF ok] obtain G where G: "groupEntries E = Inr G" by blast
  from all_Inr_map [OF ok] obtain ks where ks: "map groupKey E = map Inr ks" by blast
  note p = groupEntries_partition [OF G]
  note o = groupEntries_order [OF G ks]
  have "Inr ` set (map fst G) = set (map groupKey E)" using p(2) by simp
  also have "\<dots> = Inr ` set ks" by (simp add: ks)
  finally have keyset: "set (map fst G) = set ks"
    by (simp add: inj_image_eq_iff)
  have plain: "map fst G = first_seen ks" if none: "\<forall>k \<in> set ks. \<not> is_array_index k"
  proof -
    have a: "filter is_array_index (map fst G) = []"
      using none keyset by (auto simp: filter_empty_conv)
    have b: "filter (\<lambda>k. \<not> is_array_index k) ks = ks"
      using none by (simp add: filter_id_conv)
    from o(1) have "map fst G = filter (\<lambda>k. \<not> is_array_index k) (map fst G)"
      by (simp add: a)
    with o(3) b show ?thesis by simp
  qed
  have order_plain: "(\<forall>k \<in> set ks. \<not> is_array_index k) \<longrightarrow> map fst G = first_seen ks"
    using plain by blast
  show ?thesis
    apply (rule exI [of _ G])
    apply (rule exI [of _ ks])
    apply (intro conjI)
    apply (rule G)
    apply (rule ks)
    apply (rule p(1))
    apply (rule keyset)
    apply (rule p(3))
    apply (rule p(4))
    apply (rule p(5))
    apply (rule p(6))
    apply (rule o(1))
    apply (rule o(2))
    apply (rule o(3))
    apply (rule order_plain)
    done
qed

theorem C3_witness:
  "\<exists>G. groupEntries example_entries = Inr G
     \<and> mset (concat (map snd G)) = mset example_entries
     \<and> map fst G = first_seen [''X'', ''X'', ''X'', ''Y'', ''Y'', ''ungrouped'']"
proof -
  have k: "map groupKey example_entries
      = map Inr [''X'', ''X'', ''X'', ''Y'', ''Y'', ''ungrouped'']"
    by (simp add: example_entries_def groupKey_def groupId_def js_or_def entry_prop_def
        get_prop_def mk_entry_def not_proto_examples)
  have ok: "\<forall>e \<in> set example_entries. \<exists>k. groupKey e = Inr k \<and> k \<notin> set objectPrototypeKeys"
  proof -
    have "\<forall>x \<in> set (map groupKey example_entries). \<exists>k. x = Inr k \<and> k \<notin> set objectPrototypeKeys"
      unfolding k by (simp add: not_proto_examples)
    then show ?thesis by simp
  qed
  from C3_grouping_partition_and_order [OF ok] obtain G ks
    where all: "groupEntries example_entries = Inr G \<and> map groupKey example_entries = map Inr ks
     \<and> distinct (map fst G)
     \<and> set (map fst G) = set ks
     \<and> (\<forall>g \<in> set G. snd g = filter (\<lambda>e. groupKey e = Inr (fst g)) example_entries
            \<and> subseq (snd g) example_entries)
     \<and> (\<forall>e \<in> set example_entries. \<exists>!g. g \<in> set G \<and> e \<in> set (snd g))
     \<and> mset (concat (map snd G)) = mset example_entries
     \<and> sum_list (map (\<lambda>g. length (snd g)) G) = length example_entries
     \<and> map fst G = filter is_array_index (map fst G)
                    @ filter (\<lambda>k. \<not> is_array_index k) (map fst G)
     \<and> sorted_wrt (<) (map digits_value (filter is_array_index (map fst G)))
     \<and> filter (\<lambda>k. \<not> is_array_index k) (map fst G)
          = first_seen (filter (\<lambda>k. \<not> is_array_index k) ks)
     \<and> ((\<forall>k \<in> set ks. \<not> is_array_index k) \<longrightarrow> map fst G = first_seen ks)"
    by (elim exE)
  from all have G: "groupEntries example_entries = Inr G" by (elim conjE)
  from all have ks: "map groupKey example_entries = map Inr ks" by (elim conjE)
  from all have ms: "mset (concat (map snd G)) = mset example_entries" by (elim conjE)
  from all have ord: "(\<forall>k \<in> set ks. \<not> is_array_index k) \<longrightarrow> map fst G = first_seen ks"
    by (elim conjE)
  from ks k have "map Inr ks = (map Inr [''X'', ''X'', ''X'', ''Y'', ''Y'', ''ungrouped''] :: (error + string) list)"
    by simp
  then have kk: "ks = [''X'', ''X'', ''X'', ''Y'', ''Y'', ''ungrouped'']"
    by (rule map_injective) (rule inj_Inr)
  have "\<forall>k \<in> set ks. \<not> is_array_index k"
    unfolding kk by (simp add: not_index_examples)
  with ord have "map fst G = first_seen ks" by blast
  with G ms kk show ?thesis by blast
qed


section \<open>Filtering: lemmas\<close>

subsection \<open>Predicates that may throw\<close>

lemma every_err_True_iff: "every_err p xs = Inr True \<longleftrightarrow> (\<forall>x \<in> set xs. p x = Inr True)"
proof (induction xs)
  case Nil
  show ?case by simp
next
  case (Cons x xs)
  show ?case
  proof (cases "p x")
    case (Inl err)
    then show ?thesis by simp
  next
    case (Inr b)
    with Cons.IH show ?thesis by (cases b) simp_all
  qed
qed


lemma filter_err_total:
  "\<forall>x \<in> set xs. \<exists>b. p x = Inr b \<Longrightarrow>
   filter_err p xs = Inr (filter (\<lambda>x. p x = Inr True) xs)"
proof (induction xs)
  case Nil
  show ?case by simp
next
  case (Cons x xs)
  from Cons.prems obtain b where b: "p x = Inr b" by auto
  from Cons.prems have "\<forall>x \<in> set xs. \<exists>b. p x = Inr b" by simp
  from Cons.IH [OF this] b show ?case by (cases b) simp_all
qed

subsection \<open>Inert clauses\<close>

lemma df_match_inert: "df_field df = [] \<or> df_value df = [] \<Longrightarrow> df_match e df = Inr True"
  by (auto simp: df_match_def)

lemma dynamic_pass_True_iff:
  "dynamic_pass dfs e = Inr True \<longleftrightarrow> (\<forall>d \<in> set dfs. df_match e d = Inr True)"
  by (simp add: dynamic_pass_def every_err_True_iff)

lemma dynamic_pass_inert:
  "\<forall>df \<in> set dfs. df_field df = [] \<or> df_value df = [] \<Longrightarrow> dynamic_pass dfs e = Inr True"
  by (simp add: dynamic_pass_True_iff df_match_inert)

lemma active_choice_inert:
  "c = None \<or> c = Some [] \<or> c = Some ''all'' \<Longrightarrow> \<not> active_choice c"
  by (auto simp: active_choice_def)

lemma filtered_entries_no_basic:
  assumes "\<not> active_choice (f_operation flt)" "\<not> active_choice (f_level flt)"
    "f_search flt = []" "f_showRead flt"
  shows "filtered_entries E flt dfs =
           (if length dfs > 0 then filter_err (dynamic_pass dfs) E else Inr E)"
  using assms unfolding filtered_entries_def Let_def by simp

text \<open>
  The list \<open>filtered\<close> is the list of all entries whenever every clause is inert: the
  filtering itself is the identity there.
\<close>

lemma filtered_entries_inert:
  assumes "f_operation flt = None \<or> f_operation flt = Some [] \<or> f_operation flt = Some ''all''"
    and "f_level flt = None \<or> f_level flt = Some [] \<or> f_level flt = Some ''all''"
    and "f_search flt = []"
    and "f_showRead flt"
    and "\<forall>df \<in> set dfs. df_field df = [] \<or> df_value df = []"
  shows "filtered_entries E flt dfs = Inr E"
proof -
  have a: "\<not> active_choice (f_operation flt)" using assms(1) by (rule active_choice_inert)
  have b: "\<not> active_choice (f_level flt)" using assms(2) by (rule active_choice_inert)
  have all: "\<forall>x \<in> set E. \<exists>b. dynamic_pass dfs x = Inr b"
    using dynamic_pass_inert [OF assms(5)] by blast
  have "filter_err (dynamic_pass dfs) E = Inr (filter (\<lambda>x. dynamic_pass dfs x = Inr True) E)"
    using all by (rule filter_err_total)
  also have "filter (\<lambda>x. dynamic_pass dfs x = Inr True) E = E"
    using dynamic_pass_inert [OF assms(5)] by (simp add: filter_id_conv)
  finally have "filter_err (dynamic_pass dfs) E = Inr E" .
  then show ?thesis by (simp add: filtered_entries_no_basic [OF a b assms(3,4)])
qed


text \<open>
  With every clause inert, \<open>applyAllFilters\<close> stores the entries unchanged, provided the
  regrouping at its end does not throw.
\<close>

lemma applyAllFilters_inert:
  assumes "f_operation flt = None \<or> f_operation flt = Some [] \<or> f_operation flt = Some ''all''"
    and "f_level flt = None \<or> f_level flt = Some [] \<or> f_level flt = Some ''all''"
    and "f_search flt = []"
    and "f_showRead flt"
    and "\<forall>df \<in> set dfs. df_field df = [] \<or> df_value df = []"
    and "\<forall>e \<in> set E. \<exists>k. groupKey e = Inr k \<and> k \<notin> set objectPrototypeKeys"
  shows "\<exists>G. applyAllFilters E flt dfs
            = Inr \<lparr> entries = E, totalCount = length E, groupedEntries = G \<rparr>"
proof -
  from groupEntries_total [OF assms(6)] obtain G where "groupEntries E = Inr G" by blast
  with filtered_entries_inert [OF assms(1-5), of E] show ?thesis
    by (simp add: applyAllFilters_def)
qed



subsection \<open>The value compared\<close>

lemma str_includes_iff: "str_includes s sub \<longleftrightarrow> (\<exists>p q. s = p @ sub @ q)"
proof (induction s)
  case Nil
  show ?case by auto
next
  case (Cons c cs)
  have "(\<exists>p q. c # cs = p @ sub @ q) \<longleftrightarrow> prefix sub (c # cs) \<or> (\<exists>p q. cs = p @ sub @ q)"
  proof
    assume "\<exists>p q. c # cs = p @ sub @ q"
    then obtain p q where pq: "c # cs = p @ sub @ q" by blast
    show "prefix sub (c # cs) \<or> (\<exists>p q. cs = p @ sub @ q)"
    proof (cases p)
      case Nil
      with pq have "c # cs = sub @ q" by simp
      then show ?thesis by (metis prefixI)
    next
      case (Cons x p')
      with pq have "cs = p' @ sub @ q" by simp
      then show ?thesis by blast
    qed
  next
    assume "prefix sub (c # cs) \<or> (\<exists>p q. cs = p @ sub @ q)"
    then show "\<exists>p q. c # cs = p @ sub @ q"
    proof
      assume "prefix sub (c # cs)"
      then obtain q where "c # cs = sub @ q" by (auto simp: prefix_def)
      then have "c # cs = [] @ sub @ q" by simp
      then show ?thesis by blast
    next
      assume "\<exists>p q. cs = p @ sub @ q"
      then obtain p q where "cs = p @ sub @ q" by blast
      then have "c # cs = (c # p) @ sub @ q" by simp
      then show ?thesis by blast
    qed
  qed
  with Cons.IH show ?case by simp
qed

lemma toLowerCase_Nil_iff: "toLowerCase s = [] \<longleftrightarrow> s = []"
  by (simp add: toLowerCase_def)






text \<open>
  C4. With every clause inert, the list \<open>filtered\<close> is the list of all entries
  (\<open>filtered_entries_inert\<close>), and \<open>applyAllFilters\<close> stores it unchanged when the
  regrouping at its end returns (\<open>applyAllFilters_inert\<close>). On the code the regrouping
  can throw: for a single entry whose \<open>tf_req_id\<close> is \<open>constructor\<close>, under the filter
  state the component starts with and no dynamic filter, \<open>filtered\<close> is that entry, and
  \<open>groupEntries(filtered)\<close> throws a \<open>TypeError\<close>, so \<open>applyAllFilters\<close> throws instead
  of returning the entries unchanged.
\<close>

theorem C4_inert_filters_on_prototype_key:
  "filtered_entries
     [mk_entry [(''id'', JNum ''1''), (''tf_req_id'', JStr ''constructor''), (''message'', JStr ''m'')]]
     initial_filters []
     = Inr [mk_entry [(''id'', JNum ''1''), (''tf_req_id'', JStr ''constructor''), (''message'', JStr ''m'')]]
   \<and> applyAllFilters
     [mk_entry [(''id'', JNum ''1''), (''tf_req_id'', JStr ''constructor''), (''message'', JStr ''m'')]]
     initial_filters []
     = Inl TypeError"
proof -
  let ?e = "mk_entry [(''id'', JNum ''1''), (''tf_req_id'', JStr ''constructor''), (''message'', JStr ''m'')]"
  have f: "filtered_entries [?e] initial_filters [] = Inr [?e]"
    by (rule filtered_entries_inert) (simp_all add: initial_filters_def)
  have k: "groupKey ?e = Inr ''constructor''"
    by (simp add: groupKey_def groupId_def js_or_def entry_prop_def get_prop_def mk_entry_def)
  have p: "''constructor'' \<in> set objectPrototypeKeys"
    by (simp add: objectPrototypeKeys_def)
  have "\<exists>e \<in> set [?e]. \<not> (\<exists>k. groupKey e = Inr k \<and> k \<notin> set objectPrototypeKeys)"
    using k p by simp
  then have g: "groupEntries [?e] = Inl TypeError"
    by (simp only: groupEntries_error)
  from f g show ?thesis by (simp add: applyAllFilters_def)
qed




end
